theory Spec2Isabelle
  imports Complex_Main "HOL-Library.Sublist" "HOL-Library.Word"
begin

section \<open>The crawl engine of \<^verbatim>\<open>src/webCrawler.js\<close>\<close>

text \<open>
  The class \<^verbatim>\<open>WebCrawler\<close> is embedded with explicit state passing. The mutable
  fields of an instance (\<^verbatim>\<open>visitedUrls\<close>, \<^verbatim>\<open>failedUrls\<close>, \<^verbatim>\<open>results\<close>,
  \<^verbatim>\<open>robotsCache\<close>) are a record, the options are a second record that no method
  writes, and the libraries the class calls (axios, cheerio, url-parse, robots-parser,
  \<^verbatim>\<open>RegExp\<close>, \<^verbatim>\<open>Date.now\<close>, the listeners of the \<^verbatim>\<open>EventEmitter\<close>) are the
  fields of a record \<open>world\<close> of arbitrary functions, so that every theorem holds
  for every behaviour of the network and of the libraries. A JavaScript exception is a
  value \<open>Inl e\<close> of a sum type; a rejected promise is the same value.
\<close>

subsection \<open>JavaScript values\<close>

type_synonym url = string

datatype error = Error string | ERR_UNHANDLED_ERROR

text \<open>
  A string of JavaScript is a sequence of UTF-16 code units. The strings whose
  characters the code counts or classifies (the body of a response, the text of an
  element) are lists of code units; the strings that it only compares, concatenates and
  searches for ASCII text (URLs, header and attribute values, selectors, patterns, event
  names) are byte strings, for which these operations give the same answers.
\<close>

type_synonym code_unit = "16 word"

type_synonym js_text = "code_unit list"

text \<open>A string literal of the source, all of whose characters are ASCII.\<close>

definition utf16 :: "string \<Rightarrow> js_text" where
  "utf16 s = map of_char s"

text \<open>\<^verbatim>\<open>a || b\<close> for a string \<open>a\<close> that may be \<^verbatim>\<open>undefined\<close>: the empty string is falsy.\<close>

definition or_else :: "'a list option \<Rightarrow> 'a list \<Rightarrow> 'a list" where
  "or_else a b = (case a of None \<Rightarrow> b | Some x \<Rightarrow> if x = [] then b else x)"

text \<open>
  \<^verbatim>\<open>String.prototype.trim\<close> removes the white space and the line terminators of
  ECMAScript from both ends: TAB, VT, FF, U+FEFF and the space separators of Unicode
  (U+0020, U+00A0, U+1680, U+2000 to U+200A, U+202F, U+205F, U+3000), and LF, CR,
  U+2028, U+2029. All of them are single code units.
\<close>

definition isWhiteSpace :: "code_unit \<Rightarrow> bool" where
  "isWhiteSpace c \<longleftrightarrow>
     c \<in> {0x0009, 0x000A, 0x000B, 0x000C, 0x000D, 0x0020, 0x00A0, 0x1680, 0x2028, 0x2029,
           0x202F, 0x205F, 0x3000, 0xFEFF}
     \<or> (0x2000 \<le> c \<and> c \<le> 0x200A)"

definition trim :: "js_text \<Rightarrow> js_text" where
  "trim s = rev (dropWhile isWhiteSpace (rev (dropWhile isWhiteSpace s)))"

text \<open>\<^verbatim>\<open>s.includes(sub)\<close>: \<open>sub\<close> occurs in \<open>s\<close> as a contiguous substring.\<close>

fun str_includes :: "string \<Rightarrow> string \<Rightarrow> bool" where
  "str_includes [] sub = (sub = [])"
| "str_includes (c # cs) sub = (take (length sub) (c # cs) = sub \<or> str_includes cs sub)"

text \<open>\<^verbatim>\<open>[...new Set(xs)]\<close>: a \<^verbatim>\<open>Set\<close> keeps the first insertion of each value, in order.\<close>

definition set_add :: "'a list \<Rightarrow> 'a \<Rightarrow> 'a list" where
  "set_add acc x = (if x \<in> set acc then acc else acc @ [x])"

definition new_Set :: "'a list \<Rightarrow> 'a list" where
  "new_Set xs = foldl set_add [] xs"

subsection \<open>Data model\<close>

record link =
  link_url :: url
  link_text :: js_text
  link_title :: string

record image =
  img_url :: url
  alt :: string
  img_title :: string
  width :: string
  height :: string

record page_result =
  url :: url
  originalUrl :: url
  title :: js_text
  description :: string
  page_keywords :: string
  headings :: "(string \<times> js_text list) list"
  links :: "link list"
  images :: "image list"
  statusCode :: int
  contentLength :: nat
  contentType :: string
  crawlTime :: int
  depth :: int
  parent :: "url option"
  timestamp :: int

text \<open>An item of the local \<^verbatim>\<open>queue\<close> of \<^verbatim>\<open>crawl\<close>: \<^verbatim>\<open>{ url, depth, parent }\<close>.\<close>

record item =
  item_url :: url
  item_depth :: int
  item_parent :: "url option"

record summary =
  totalPages :: nat
  failedPages :: nat
  totalTime :: int
  averageTime :: real

record crawl_output =
  out_results :: "page_result list"
  out_summary :: summary

record options =
  maxDepth :: int
  maxPages :: int
  maxConcurrency :: int
  delay :: int
  timeout :: int
  followExternalLinks :: bool
  respectRobotsTxt :: bool
  userAgent :: string
  allowedDomains :: "string list"
  excludePatterns :: "string list"
  includePatterns :: "string list"
  maxRetries :: int

subsection \<open>The libraries, as parameters\<close>

text \<open>An axios response, as far as \<^verbatim>\<open>crawlPage\<close> reads it.\<close>

record response =
  status :: int
  content_type_header :: "string option"
  data :: js_text
  responseUrl :: "string option"

text \<open>
  A cheerio document answers a selector with the elements it matches, in document
  order; of an element the code reads attributes and the text.
\<close>

record element =
  attribs :: "(string \<times> string) list"
  text_content :: js_text

type_synonym cheerio = "string \<Rightarrow> element list"

text \<open>\<^verbatim>\<open>$(sel).attr(name)\<close> is the attribute of the first matched element, or \<^verbatim>\<open>undefined\<close>.\<close>

definition attr :: "element list \<Rightarrow> string \<Rightarrow> string option" where
  "attr els name = (case els of [] \<Rightarrow> None | e # _ \<Rightarrow> map_of (attribs e) name)"

text \<open>\<^verbatim>\<open>$(sel).text()\<close> is the combined text of all matched elements.\<close>

definition text_of :: "element list \<Rightarrow> js_text" where
  "text_of els = concat (map text_content els)"

text \<open>The fields of a url-parse object that the code reads.\<close>

record parsed_url =
  protocol :: string
  host :: string
  hostname :: string

text \<open>The object returned by robots-parser: it is determined by what it was built from.\<close>

datatype robots = Robots url js_text

text \<open>What \<^verbatim>\<open>emit\<close> hands to the listeners.\<close>

datatype payload =
    Page_payload page_result
  | Page_error url error
  | Fatal error
  | Complete "page_result list" summary

text \<open>A listener returns (\<open>None\<close>) or throws (\<open>Some e\<close>).\<close>

type_synonym listener = "payload \<Rightarrow> error option"

text \<open>
  The first argument of \<open>httpGet\<close> and \<open>dateNow\<close> is the number of effects the run
  has had so far, so that the answer of the network to the same request, and the clock,
  may change during a run in any way. The calls of \<^verbatim>\<open>crawlPage\<close> that one batch
  starts wait for the network and for timers, and the order in which they are resumed
  is the world's: \<open>schedule n k\<close> chooses among the pending calls, at the \<open>k\<close>-th
  resumption of a batch, when the run has had \<open>n\<close> effects.
\<close>

record world =
  httpGet :: "nat \<Rightarrow> url \<Rightarrow> error + response"
  dateNow :: "nat \<Rightarrow> int"
  cheerio_load :: "js_text \<Rightarrow> cheerio"
  urlParse :: "string \<Rightarrow> error + parsed_url"
  urlResolve :: "string \<Rightarrow> string \<Rightarrow> error + url"
  regExpTest :: "string \<Rightarrow> string \<Rightarrow> error + bool"
  robotsParser :: "url \<Rightarrow> js_text \<Rightarrow> error + robots"
  robotsIsAllowed :: "robots \<Rightarrow> url \<Rightarrow> string \<Rightarrow> error + bool option"
  listeners :: "string \<Rightarrow> listener list"
  schedule :: "nat \<Rightarrow> nat \<Rightarrow> nat"

subsection \<open>State of an instance, and the effects of a run\<close>

datatype effect =
    VisitedAdd url
  | Get_page url
  | Get_robots url
  | Sleep int
  | DateNow
  | Emit string payload

text \<open>
  The four mutable fields of the constructor (lines 29 to 32), and the sequence of
  effects so far: the additions to \<^verbatim>\<open>visitedUrls\<close>, the requests, the sleeps, the
  clock readings and the emitted events, in program order.
\<close>

record crawler =
  visitedUrls :: "url set"
  failedUrls :: "url set"
  results :: "page_result list"
  robotsCache :: "url \<rightharpoonup> robots option"
  trace :: "effect list"

definition new_WebCrawler :: crawler where
  "new_WebCrawler =
     \<lparr>visitedUrls = {}, failedUrls = {}, results = [], robotsCache = Map.empty, trace = []\<rparr>"

definition record_effect :: "effect \<Rightarrow> crawler \<Rightarrow> crawler" where
  "record_effect e s = s\<lparr>trace := trace s @ [e]\<rparr>"

definition sleep :: "int \<Rightarrow> crawler \<Rightarrow> crawler" where
  "sleep ms s = record_effect (Sleep ms) s"

definition Date_now :: "world \<Rightarrow> crawler \<Rightarrow> int \<times> crawler" where
  "Date_now w s = (dateNow w (length (trace s)), record_effect DateNow s)"

text \<open>\<^verbatim>\<open>this.httpClient.get(url)\<close>; the effect says which of the two call sites asked.\<close>

definition get_page :: "world \<Rightarrow> url \<Rightarrow> crawler \<Rightarrow> (error + response) \<times> crawler" where
  "get_page w u s = (httpGet w (length (trace s)) u, record_effect (Get_page u) s)"

definition get_robots :: "world \<Rightarrow> url \<Rightarrow> crawler \<Rightarrow> (error + response) \<times> crawler" where
  "get_robots w u s = (httpGet w (length (trace s)) u, record_effect (Get_robots u) s)"

text \<open>
  \<^verbatim>\<open>EventEmitter.emit\<close> of Node: the listeners run in order and an exception of one of
  them leaves \<^verbatim>\<open>emit\<close>; an \<^verbatim>\<open>'error'\<close> event without a listener is thrown, as it is
  when the payload is an \<^verbatim>\<open>Error\<close>, wrapped in \<^verbatim>\<open>ERR_UNHANDLED_ERROR\<close> otherwise.
\<close>

fun call_listeners :: "listener list \<Rightarrow> payload \<Rightarrow> error + bool" where
  "call_listeners [] p = Inr True"
| "call_listeners (l # ls) p = (case l p of Some e \<Rightarrow> Inl e | None \<Rightarrow> call_listeners ls p)"

definition unhandled :: "payload \<Rightarrow> error" where
  "unhandled p = (case p of Fatal e \<Rightarrow> e | _ \<Rightarrow> ERR_UNHANDLED_ERROR)"

definition emit :: "world \<Rightarrow> string \<Rightarrow> payload \<Rightarrow> crawler \<Rightarrow> (error + bool) \<times> crawler" where
  "emit w name p s =
     (let s1 = record_effect (Emit name p) s in
      case listeners w name of
        [] \<Rightarrow> if name = ''error'' then (Inl (unhandled p), s1) else (Inr False, s1)
      | l # ls \<Rightarrow> (call_listeners (l # ls) p, s1))"

subsection \<open>\<^verbatim>\<open>extractHeadings\<close>, \<^verbatim>\<open>extractLinks\<close>, \<^verbatim>\<open>extractImages\<close>\<close>

definition heading_tags :: "string list" where
  "heading_tags = [''h1'', ''h2'', ''h3'', ''h4'', ''h5'', ''h6'']"

text \<open>The object \<^verbatim>\<open>headings\<close> is the list of its entries, in the order the keys are set.\<close>

definition extractHeadings :: "cheerio \<Rightarrow> (string \<times> js_text list) list" where
  "extractHeadings doc =
     map (\<lambda>tag. (tag, filter (\<lambda>t. t \<noteq> []) (map (\<lambda>el. trim (text_of [el])) (doc tag))))
       heading_tags"

text \<open>The callback of \<^verbatim>\<open>each\<close> in \<^verbatim>\<open>extractLinks\<close>: no link, or one.\<close>

definition link_of :: "world \<Rightarrow> url \<Rightarrow> element \<Rightarrow> link list" where
  "link_of w baseUrl el =
     (case attr [el] ''href'' of
        None \<Rightarrow> []
      | Some href \<Rightarrow>
          if href = [] then []
          else (case urlResolve w href baseUrl of
                  Inl e \<Rightarrow> []
                | Inr absoluteUrl \<Rightarrow>
                    [\<lparr>link_url = absoluteUrl, link_text = trim (text_of [el]),
                      link_title = or_else (attr [el] ''title'') []\<rparr>]))"

text \<open>\<^verbatim>\<open>new URL(baseUrl)\<close> at line 215 is outside the inner \<^verbatim>\<open>try\<close>.\<close>

definition extractLinks :: "world \<Rightarrow> cheerio \<Rightarrow> url \<Rightarrow> error + link list" where
  "extractLinks w doc baseUrl =
     (case urlParse w baseUrl of
        Inl e \<Rightarrow> Inl e
      | Inr baseUrlObj \<Rightarrow> Inr (concat (map (link_of w baseUrl) (doc ''a[href]''))))"

definition image_of :: "world \<Rightarrow> url \<Rightarrow> element \<Rightarrow> image list" where
  "image_of w baseUrl el =
     (case attr [el] ''src'' of
        None \<Rightarrow> []
      | Some src \<Rightarrow>
          if src = [] then []
          else (case urlResolve w src baseUrl of
                  Inl e \<Rightarrow> []
                | Inr absoluteUrl \<Rightarrow>
                    [\<lparr>img_url = absoluteUrl, alt = or_else (attr [el] ''alt'') [],
                      img_title = or_else (attr [el] ''title'') [],
                      width = or_else (attr [el] ''width'') [],
                      height = or_else (attr [el] ''height'') []\<rparr>]))"

definition extractImages :: "world \<Rightarrow> cheerio \<Rightarrow> url \<Rightarrow> image list" where
  "extractImages w doc baseUrl = concat (map (image_of w baseUrl) (doc ''img[src]''))"

subsection \<open>\<^verbatim>\<open>extractAndFilterUrls\<close>\<close>

text \<open>\<^verbatim>\<open>patterns.some(pattern => new RegExp(pattern).test(url))\<close>, left to right.\<close>

fun some_pattern :: "world \<Rightarrow> string list \<Rightarrow> url \<Rightarrow> error + bool" where
  "some_pattern w [] u = Inr False"
| "some_pattern w (pattern # ps) u =
     (case regExpTest w pattern u of
        Inl e \<Rightarrow> Inl e
      | Inr b \<Rightarrow> if b then Inr True else some_pattern w ps u)"

text \<open>The body of the \<^verbatim>\<open>for\<close> loop, lines 268 to 299: is the link pushed?\<close>

definition keeps :: "world \<Rightarrow> options \<Rightarrow> parsed_url \<Rightarrow> url \<Rightarrow> error + bool" where
  "keeps w opts baseUrlObj u =
     (case urlParse w u of
        Inl e \<Rightarrow> Inl e
      | Inr urlObj \<Rightarrow>
          if protocol urlObj \<notin> set [''http:'', ''https:''] then Inr False
          else if \<not> followExternalLinks opts \<and> hostname urlObj \<noteq> hostname baseUrlObj
            then Inr False
          else if length (allowedDomains opts) > 0
                  \<and> hostname urlObj \<notin> set (allowedDomains opts) then Inr False
          else (case some_pattern w (excludePatterns opts) u of
                  Inl e \<Rightarrow> Inl e
                | Inr excluded \<Rightarrow>
                    if excluded then Inr False
                    else if length (includePatterns opts) > 0
                      then (case some_pattern w (includePatterns opts) u of
                              Inl e \<Rightarrow> Inl e
                            | Inr included \<Rightarrow> Inr included)
                    else Inr True))"

fun filter_links ::
  "world \<Rightarrow> options \<Rightarrow> parsed_url \<Rightarrow> link list \<Rightarrow> url list \<Rightarrow> error + url list" where
  "filter_links w opts baseUrlObj [] filteredUrls = Inr filteredUrls"
| "filter_links w opts baseUrlObj (l # ls) filteredUrls =
     (case keeps w opts baseUrlObj (link_url l) of
        Inl e \<Rightarrow> Inl e
      | Inr k \<Rightarrow>
          filter_links w opts baseUrlObj ls
            (if k then filteredUrls @ [link_url l] else filteredUrls))"

text \<open>The third parameter of the source, \<^verbatim>\<open>depth\<close>, is not read.\<close>

definition extractAndFilterUrls ::
  "world \<Rightarrow> options \<Rightarrow> link list \<Rightarrow> url \<Rightarrow> int \<Rightarrow> error + url list" where
  "extractAndFilterUrls w opts ls baseUrl d =
     (case urlParse w baseUrl of
        Inl e \<Rightarrow> Inl e
      | Inr baseUrlObj \<Rightarrow>
          (case filter_links w opts baseUrlObj ls [] of
             Inl e \<Rightarrow> Inl e
           | Inr filteredUrls \<Rightarrow> Inr (new_Set filteredUrls)))"

subsection \<open>\<^verbatim>\<open>isAllowedByRobots\<close>\<close>

definition cache_set :: "url \<Rightarrow> robots option \<Rightarrow> crawler \<Rightarrow> crawler" where
  "cache_set k v s = s\<lparr>robotsCache := (robotsCache s)(k \<mapsto> v)\<rparr>"

text \<open>The inner \<^verbatim>\<open>try\<close>/\<^verbatim>\<open>catch\<close>, lines 311 to 318; \<open>None\<close> is the cached \<^verbatim>\<open>null\<close>.\<close>

definition fetch_robots :: "world \<Rightarrow> url \<Rightarrow> crawler \<Rightarrow> crawler" where
  "fetch_robots w robotsUrl s =
     (case get_robots w robotsUrl s of
        (Inl e, s1) \<Rightarrow> cache_set robotsUrl None s1
      | (Inr resp, s1) \<Rightarrow>
          (case robotsParser w robotsUrl (data resp) of
             Inl e \<Rightarrow> cache_set robotsUrl None s1
           | Inr rb \<Rightarrow> cache_set robotsUrl (Some rb) s1))"

text \<open>
  The body of the outer \<^verbatim>\<open>try\<close>, lines 307 to 322. \<^verbatim>\<open>isAllowed\<close> of robots-parser
  answers \<^verbatim>\<open>true\<close>, \<^verbatim>\<open>false\<close> or \<^verbatim>\<open>undefined\<close> (\<open>None\<close>).
\<close>

definition isAllowedByRobots_try ::
  "world \<Rightarrow> options \<Rightarrow> url \<Rightarrow> crawler \<Rightarrow> (error + bool option) \<times> crawler" where
  "isAllowedByRobots_try w opts u s =
     (case urlParse w u of
        Inl e \<Rightarrow> (Inl e, s)
      | Inr urlObj \<Rightarrow>
          (let robotsUrl = protocol urlObj @ ''//'' @ host urlObj @ ''/robots.txt'';
               s1 = (if robotsUrl \<notin> dom (robotsCache s) then fetch_robots w robotsUrl s else s)
           in case robotsCache s1 robotsUrl of
                Some (Some rb) \<Rightarrow> (robotsIsAllowed w rb u (userAgent opts), s1)
              | _ \<Rightarrow> (Inr (Some True), s1)))"

text \<open>The outer \<^verbatim>\<open>catch\<close>, lines 324 to 327, answers \<^verbatim>\<open>true\<close>.\<close>

definition isAllowedByRobots ::
  "world \<Rightarrow> options \<Rightarrow> url \<Rightarrow> crawler \<Rightarrow> (error + bool option) \<times> crawler" where
  "isAllowedByRobots w opts u s =
     (case isAllowedByRobots_try w opts u s of
        (Inl e, s1) \<Rightarrow> (Inr (Some True), s1)
      | (Inr v, s1) \<Rightarrow> (Inr v, s1))"

subsection \<open>\<^verbatim>\<open>crawlPage\<close>\<close>

text \<open>
  The object of lines 167 to 183, from the response and what was computed before it:
  the content type, the reading of the clock after the response, the links, and the
  instant that \<^verbatim>\<open>new Date()\<close> reads (not its ISO text).
\<close>

definition page_info ::
  "world \<Rightarrow> url \<Rightarrow> int \<Rightarrow> url option \<Rightarrow> int \<Rightarrow> response \<Rightarrow> string \<Rightarrow> int \<Rightarrow> link list
    \<Rightarrow> int \<Rightarrow> page_result" where
  \<open>page_info w u d p startTime resp contentType' endTime ls now =
     (let doc = cheerio_load w (data resp) in
      \<lparr>url = or_else (responseUrl resp) u,
       originalUrl = u,
       title = or_else (Some (trim (text_of (doc ''title'')))) (utf16 ''No title''),
       description = or_else (attr (doc ''meta[name="description"]'') ''content'') [],
       page_keywords = or_else (attr (doc ''meta[name="keywords"]'') ''content'') [],
       headings = extractHeadings doc,
       links = ls,
       images = extractImages w doc u,
       statusCode = status resp,
       contentLength = length (data resp),
       contentType = contentType',
       crawlTime = endTime - startTime,
       depth = d,
       parent = p,
       timestamp = now\<rparr>)\<close>

text \<open>
  The body of the \<^verbatim>\<open>try\<close> of the retry loop, lines 152 to 185: one request and, for
  an HTML response, the page information. An exception of \<^verbatim>\<open>extractLinks\<close> leaves
  the \<^verbatim>\<open>try\<close> like a failed request.
\<close>

definition crawlPage_try ::
  "world \<Rightarrow> url \<Rightarrow> int \<Rightarrow> url option \<Rightarrow> int \<Rightarrow> crawler
    \<Rightarrow> (error + page_result option) \<times> crawler" where
  "crawlPage_try w u d p startTime s =
     (case get_page w u s of
        (Inl e, s1) \<Rightarrow> (Inl e, s1)
      | (Inr resp, s1) \<Rightarrow>
          (case Date_now w s1 of
             (endTime, s2) \<Rightarrow>
               (let contentType' = or_else (content_type_header resp) [] in
                if \<not> str_includes contentType' ''text/html'' then (Inr None, s2)
                else
                  (case extractLinks w (cheerio_load w (data resp)) u of
                     Inl e \<Rightarrow> (Inl e, s2)
                   | Inr ls \<Rightarrow>
                       (case Date_now w s2 of
                          (now, s3) \<Rightarrow>
                            (Inr (Some (page_info w u d p startTime resp contentType'
                                          endTime ls now)), s3))))))"

text \<open>
  The \<^verbatim>\<open>while\<close> loop, lines 150 to 196. When the condition fails on entry the
  function falls off its end and the promise is fulfilled with \<^verbatim>\<open>undefined\<close>, which
  \<^verbatim>\<open>crawl\<close> treats as it treats \<^verbatim>\<open>null\<close>: both are \<open>None\<close>.
\<close>

function crawlPage_loop ::
  "world \<Rightarrow> options \<Rightarrow> url \<Rightarrow> int \<Rightarrow> url option \<Rightarrow> int \<Rightarrow> int \<Rightarrow> crawler
    \<Rightarrow> (error + page_result option) \<times> crawler" where
  "crawlPage_loop w opts u d p startTime retries s =
     (if retries \<le> maxRetries opts then
        (case crawlPage_try w u d p startTime s of
           (Inr v, s1) \<Rightarrow> (Inr v, s1)
         | (Inl e, s1) \<Rightarrow>
             if retries + 1 > maxRetries opts then (Inl e, s1)
             else crawlPage_loop w opts u d p startTime (retries + 1)
                    (sleep (1000 * (retries + 1)) s1))
      else (Inr None, s))"
  by pat_completeness auto
termination
  by (relation "measure (\<lambda>(w, opts, u, d, p, startTime, retries, s).
        nat (maxRetries opts + 1 - retries))") auto

declare crawlPage_loop.simps [simp del]

text \<open>Lines 147 to 196: the clock is read, then the loop starts with no retry.\<close>

definition crawlPage_fetch ::
  "world \<Rightarrow> options \<Rightarrow> url \<Rightarrow> int \<Rightarrow> url option \<Rightarrow> crawler
    \<Rightarrow> (error + page_result option) \<times> crawler" where
  "crawlPage_fetch w opts u d p s =
     (case Date_now w s of (startTime, s1) \<Rightarrow> crawlPage_loop w opts u d p startTime 0 s1)"

definition visit :: "url \<Rightarrow> crawler \<Rightarrow> crawler" where
  "visit u s = record_effect (VisitedAdd u) (s\<lparr>visitedUrls := insert u (visitedUrls s)\<rparr>)"

definition crawlPage ::
  "world \<Rightarrow> options \<Rightarrow> url \<Rightarrow> int \<Rightarrow> url option \<Rightarrow> crawler
    \<Rightarrow> (error + page_result option) \<times> crawler" where
  "crawlPage w opts u d p s =
     (if u \<in> visitedUrls s then (Inr None, s)
      else
        (let s1 = visit u s in
         if respectRobotsTxt opts then
           (case isAllowedByRobots w opts u s1 of
              (Inl e, s2) \<Rightarrow> (Inl e, s2)
            | (Inr allowed, s2) \<Rightarrow>
                if allowed \<noteq> Some True then (Inr None, s2)
                else crawlPage_fetch w opts u d p s2)
         else crawlPage_fetch w opts u d p s1))"

subsection \<open>The calls of a batch\<close>

text \<open>
  Lines 71 to 75 start one call of \<^verbatim>\<open>crawlPage\<close> for every item of the batch and
  wait until all of them have settled. A call runs until its next \<^verbatim>\<open>await\<close>, and is
  resumed later, when what it waits for has settled; nothing else runs between two
  \<^verbatim>\<open>await\<close>s of a call, and the calls of a batch are resumed in an order that the
  code does not fix. A call is at its start, or waits at one of the four \<^verbatim>\<open>await\<close>s,
  or has settled:

    \<^item> \<open>Await_robots robotsUrl r\<close>: \<^verbatim>\<open>isAllowedByRobots\<close> waits at line 312 for the
      request of the robots file, which will settle with \<open>r\<close>;
    \<^item> \<open>Await_allowed v\<close>: \<^verbatim>\<open>crawlPage\<close> waits at line 142 for
      \<^verbatim>\<open>isAllowedByRobots\<close>, which has returned \<open>v\<close>;
    \<^item> \<open>Await_page startTime retries r\<close>: \<^verbatim>\<open>crawlPage\<close> waits at line 154 for the
      request of the page, which will settle with \<open>r\<close>;
    \<^item> \<open>Await_sleep startTime retries\<close>: \<^verbatim>\<open>crawlPage\<close> waits at line 194, after
      \<^verbatim>\<open>retries++\<close>;
    \<^item> \<open>Settled r\<close>: the promise is fulfilled (\<open>Inr\<close>) or rejected (\<open>Inl\<close>).
\<close>

datatype call =
    Start
  | Await_robots url "error + response"
  | Await_allowed "bool option"
  | Await_page int int "error + response"
  | Await_sleep int int
  | Settled "error + page_result option"

text \<open>Lines 313 to 317, after the \<^verbatim>\<open>await\<close>: what \<open>fetch_robots\<close> does with the answer.\<close>

definition robots_store :: "world \<Rightarrow> url \<Rightarrow> error + response \<Rightarrow> crawler \<Rightarrow> crawler" where
  "robots_store w robotsUrl r s =
     (case r of
        Inl e \<Rightarrow> cache_set robotsUrl None s
      | Inr resp \<Rightarrow>
          (case robotsParser w robotsUrl (data resp) of
             Inl e \<Rightarrow> cache_set robotsUrl None s
           | Inr rb \<Rightarrow> cache_set robotsUrl (Some rb) s))"

text \<open>Lines 320 and 321, with the \<^verbatim>\<open>catch\<close> of lines 324 to 327.\<close>

definition robots_answer :: "world \<Rightarrow> options \<Rightarrow> url \<Rightarrow> url \<Rightarrow> crawler \<Rightarrow> bool option" where
  "robots_answer w opts u robotsUrl s =
     (case robotsCache s robotsUrl of
        Some (Some rb) \<Rightarrow>
          (case robotsIsAllowed w rb u (userAgent opts) of
             Inl e \<Rightarrow> Some True
           | Inr v \<Rightarrow> v)
      | _ \<Rightarrow> Some True)"

text \<open>
  Lines 155 to 185, after the \<^verbatim>\<open>await\<close>: what \<open>crawlPage_try\<close> does with the answer
  to the request.
\<close>

definition page_settle ::
  "world \<Rightarrow> url \<Rightarrow> int \<Rightarrow> url option \<Rightarrow> int \<Rightarrow> error + response \<Rightarrow> crawler
    \<Rightarrow> (error + page_result option) \<times> crawler" where
  "page_settle w u d p startTime r s1 =
     (case r of
        Inl e \<Rightarrow> (Inl e, s1)
      | Inr resp \<Rightarrow>
          (case Date_now w s1 of
             (endTime, s2) \<Rightarrow>
               (let contentType' = or_else (content_type_header resp) [] in
                if \<not> str_includes contentType' ''text/html'' then (Inr None, s2)
                else
                  (case extractLinks w (cheerio_load w (data resp)) u of
                     Inl e \<Rightarrow> (Inl e, s2)
                   | Inr ls \<Rightarrow>
                       (case Date_now w s2 of
                          (now, s3) \<Rightarrow>
                            (Inr (Some (page_info w u d p startTime resp contentType'
                                          endTime ls now)), s3))))))"

text \<open>
  The head of the \<^verbatim>\<open>while\<close> loop, lines 150 to 154: the request is made and the call
  waits for it, or the loop and the call end.
\<close>

definition request_page :: "world \<Rightarrow> options \<Rightarrow> url \<Rightarrow> int \<Rightarrow> int \<Rightarrow> crawler \<Rightarrow> call \<times> crawler" where
  "request_page w opts u startTime retries s =
     (if retries \<le> maxRetries opts then
        (case get_page w u s of (r, s1) \<Rightarrow> (Await_page startTime retries r, s1))
      else (Settled (Inr None), s))"

text \<open>Lines 147 to 154.\<close>

definition enter_loop :: "world \<Rightarrow> options \<Rightarrow> url \<Rightarrow> crawler \<Rightarrow> call \<times> crawler" where
  "enter_loop w opts u s =
     (case Date_now w s of (startTime, s1) \<Rightarrow> request_page w opts u startTime 0 s1)"

text \<open>
  A call of \<^verbatim>\<open>crawlPage\<close> for the item, from where it is to its next \<^verbatim>\<open>await\<close>.
  From \<open>Start\<close> these are lines 135 to 142 with lines 307 to 312 of
  \<^verbatim>\<open>isAllowedByRobots\<close>, which returns without waiting when the URL does not parse and
  when the robots file is cached; when \<^verbatim>\<open>respectRobotsTxt\<close> is off there is no
  \<^verbatim>\<open>await\<close> before the request of the page.
\<close>

fun call_step :: "world \<Rightarrow> options \<Rightarrow> item \<Rightarrow> call \<Rightarrow> crawler \<Rightarrow> call \<times> crawler" where
  "call_step w opts it Start s =
     (if item_url it \<in> visitedUrls s then (Settled (Inr None), s)
      else
        (let s1 = visit (item_url it) s in
         if respectRobotsTxt opts then
           (case urlParse w (item_url it) of
              Inl e \<Rightarrow> (Await_allowed (Some True), s1)
            | Inr urlObj \<Rightarrow>
                (let robotsUrl = protocol urlObj @ ''//'' @ host urlObj @ ''/robots.txt'' in
                 if robotsUrl \<notin> dom (robotsCache s1) then
                   (case get_robots w robotsUrl s1 of
                      (r, s2) \<Rightarrow> (Await_robots robotsUrl r, s2))
                 else (Await_allowed (robots_answer w opts (item_url it) robotsUrl s1), s1)))
         else enter_loop w opts (item_url it) s1))"
| "call_step w opts it (Await_robots robotsUrl r) s =
     (let s1 = robots_store w robotsUrl r s in
      (Await_allowed (robots_answer w opts (item_url it) robotsUrl s1), s1))"
| "call_step w opts it (Await_allowed allowed) s =
     (if allowed \<noteq> Some True then (Settled (Inr None), s)
      else enter_loop w opts (item_url it) s)"
| "call_step w opts it (Await_page startTime retries r) s =
     (case page_settle w (item_url it) (item_depth it) (item_parent it) startTime r s of
        (Inr v, s1) \<Rightarrow> (Settled (Inr v), s1)
      | (Inl e, s1) \<Rightarrow>
          if retries + 1 > maxRetries opts then (Settled (Inl e), s1)
          else (Await_sleep startTime (retries + 1), sleep (1000 * (retries + 1)) s1))"
| "call_step w opts it (Await_sleep startTime retries) s =
     request_page w opts (item_url it) startTime retries s"
| "call_step w opts it (Settled r) s = (Settled r, s)"

fun pending :: "call \<Rightarrow> bool" where
  "pending (Settled r) = False"
| "pending c = True"

text \<open>
  \<^verbatim>\<open>Promise.allSettled\<close> gives the outcomes of the calls, in the order of the batch,
  when no call is pending.
\<close>

fun outcome :: "call \<Rightarrow> error + page_result option" where
  "outcome (Settled r) = r"
| "outcome c = Inr None"

text \<open>
  The limiter of line 33 admits \<^verbatim>\<open>maxConcurrency\<close> calls at a time and a batch has
  no more items, so it starts every call of the batch, in the order of the batch and
  each to its first \<^verbatim>\<open>await\<close>, before a call is resumed.
\<close>

fun start_calls ::
  "world \<Rightarrow> options \<Rightarrow> (item \<times> call) list \<Rightarrow> item list \<Rightarrow> crawler
    \<Rightarrow> (item \<times> call) list \<times> crawler" where
  "start_calls w opts started [] s = (started, s)"
| "start_calls w opts started (it # batch) s =
     (case call_step w opts it Start s of
        (c, s1) \<Rightarrow> start_calls w opts (started @ [(it, c)]) batch s1)"

text \<open>The \<open>n\<close>-th of the pending calls, counted from 0, is resumed.\<close>

fun resume ::
  "world \<Rightarrow> options \<Rightarrow> nat \<Rightarrow> (item \<times> call) list \<Rightarrow> crawler
    \<Rightarrow> (item \<times> call) list \<times> crawler" where
  "resume w opts n [] s = ([], s)"
| "resume w opts n ((it, c) # calls) s =
     (if pending c then
        (case n of
           0 \<Rightarrow> (case call_step w opts it c s of (c', s') \<Rightarrow> ((it, c') # calls, s'))
         | Suc m \<Rightarrow> (case resume w opts m calls s of (calls', s') \<Rightarrow> ((it, c) # calls', s')))
      else (case resume w opts n calls s of (calls', s') \<Rightarrow> ((it, c) # calls', s')))"

text \<open>
  The number of resumptions that a call has before it, at most: the loop of
  \<^verbatim>\<open>crawlPage\<close> makes \<^verbatim>\<open>maxRetries + 1\<close> requests at most.
\<close>

fun resumptions :: "options \<Rightarrow> call \<Rightarrow> nat" where
  "resumptions opts Start = 2 * nat (maxRetries opts) + 4"
| "resumptions opts (Await_robots robotsUrl r) = 2 * nat (maxRetries opts) + 3"
| "resumptions opts (Await_allowed allowed) = 2 * nat (maxRetries opts) + 2"
| "resumptions opts (Await_page startTime retries r) = 2 * nat (maxRetries opts - retries) + 1"
| "resumptions opts (Await_sleep startTime retries) = 2 * nat (maxRetries opts - retries) + 2"
| "resumptions opts (Settled r) = 0"

text \<open>
  The calls are resumed, one at a time, until none is pending. Which of the pending
  calls is resumed is \<open>schedule\<close> of the world: any order is possible.
\<close>

function run_calls ::
  "world \<Rightarrow> options \<Rightarrow> nat \<Rightarrow> (item \<times> call) list \<Rightarrow> crawler
    \<Rightarrow> (item \<times> call) list \<times> crawler" where
  "run_calls w opts k calls s =
     (if filter (\<lambda>t. pending (snd t)) calls = [] then (calls, s)
      else
        (case resume w opts
                (schedule w (length (trace s)) k mod length (filter (\<lambda>t. pending (snd t)) calls))
                calls s of
           (calls', s') \<Rightarrow> run_calls w opts (Suc k) calls' s'))"
  by pat_completeness auto
termination
proof (relation "measure (\<lambda>(w, opts, k, calls, s). sum_list (map (\<lambda>t. resumptions opts (snd t)) calls))",
    goal_cases)
  case 1
  show ?case
    by simp
next
  case (2 w opts k calls s calls' s')
  have step: "resumptions opts c' < resumptions opts c"
    if "pending c" and "call_step w opts it c t = (c', t')" for it c t c' t'
    using that
    by (cases c)
      (auto simp: enter_loop_def request_page_def Date_now_def get_page_def get_robots_def
        Let_def split: if_splits sum.splits prod.splits)
  have dec: "sum_list (map (\<lambda>t. resumptions opts (snd t)) cs')
      < sum_list (map (\<lambda>t. resumptions opts (snd t)) cs)"
    if "n < length (filter (\<lambda>t. pending (snd t)) cs)" and "resume w opts n cs t = (cs', t')"
    for n cs t cs' t'
    using that
  proof (induction cs arbitrary: n cs')
    case Nil
    then show ?case
      by simp
  next
    case (Cons a cs)
    obtain it c where a: "a = (it, c)"
      by (cases a)
    show ?case
    proof (cases "pending c")
      case False
      with Cons.prems a obtain cs1 where
        "resume w opts n cs t = (cs1, t')" "cs' = (it, c) # cs1"
        by (auto split: prod.splits)
      with Cons.IH [of n cs1] Cons.prems(1) False a show ?thesis
        by simp
    next
      case True
      show ?thesis
      proof (cases n)
        case 0
        with Cons.prems True a obtain c' where
          "call_step w opts it c t = (c', t')" "cs' = (it, c') # cs"
          by (auto split: prod.splits)
        with step [OF True this(1)] a show ?thesis
          by simp
      next
        case (Suc m)
        with Cons.prems True a obtain cs1 where
          "resume w opts m cs t = (cs1, t')" "cs' = (it, c) # cs1"
          by (auto split: prod.splits)
        with Cons.IH [of m cs1] Cons.prems(1) True a Suc show ?thesis
          by simp
      qed
    qed
  qed
  from 2 have "schedule w (length (trace s)) k mod length (filter (\<lambda>t. pending (snd t)) calls)
      < length (filter (\<lambda>t. pending (snd t)) calls)"
    by simp
  moreover from 2 have "resume w opts
      (schedule w (length (trace s)) k mod length (filter (\<lambda>t. pending (snd t)) calls)) calls s
      = (calls', s')"
    by simp
  ultimately have "sum_list (map (\<lambda>t. resumptions opts (snd t)) calls')
      < sum_list (map (\<lambda>t. resumptions opts (snd t)) calls)"
    by (rule dec)
  then show ?case
    by simp
qed

declare run_calls.simps [simp del]

subsection \<open>\<^verbatim>\<open>crawl\<close>\<close>

text \<open>
  Lines 71 to 75: the calls of the batch are started, they are resumed until all have
  settled, and \<^verbatim>\<open>batchResults\<close> are their outcomes.
\<close>

definition dispatch ::
  "world \<Rightarrow> options \<Rightarrow> item list \<Rightarrow> crawler
    \<Rightarrow> (error + page_result option) list \<times> crawler" where
  "dispatch w opts batch s =
     (case start_calls w opts [] batch s of
        (calls, s1) \<Rightarrow>
          (case run_calls w opts 0 calls s1 of
             (calls', s2) \<Rightarrow> (map (\<lambda>t. outcome (snd t)) calls', s2)))"

text \<open>Lines 93 to 97.\<close>

definition enqueue :: "crawler \<Rightarrow> item list \<Rightarrow> url list \<Rightarrow> int \<Rightarrow> url \<Rightarrow> item list" where
  "enqueue s queue newUrls d par =
     queue @ map (\<lambda>u. \<lparr>item_url = u, item_depth = d, item_parent = Some par\<rparr>)
               (filter (\<lambda>u. u \<notin> visitedUrls s \<and> u \<notin> failedUrls s) newUrls)"

text \<open>Lines 82 to 100: a fulfilled promise with a truthy value.\<close>

definition on_fulfilled ::
  "world \<Rightarrow> options \<Rightarrow> page_result \<Rightarrow> item \<Rightarrow> item list \<Rightarrow> crawler
    \<Rightarrow> (error + item list) \<times> crawler" where
  "on_fulfilled w opts crawlResult it queue s =
     (let s1 = s\<lparr>results := results s @ [crawlResult]\<rparr> in
      case (if item_depth it < maxDepth opts then
              (case extractAndFilterUrls w opts (links crawlResult) (url crawlResult)
                      (item_depth it + 1) of
                 Inl e \<Rightarrow> Inl e
               | Inr newUrls \<Rightarrow>
                   Inr (enqueue s1 queue newUrls (item_depth it + 1) (url crawlResult)))
            else Inr queue) of
        Inl e \<Rightarrow> (Inl e, s1)
      | Inr queue1 \<Rightarrow>
          (case emit w ''page'' (Page_payload crawlResult) s1 of
             (Inl e, s2) \<Rightarrow> (Inl e, s2)
           | (Inr b, s2) \<Rightarrow> (Inr queue1, s2)))"

text \<open>Lines 102 to 104: a rejected promise.\<close>

definition on_rejected ::
  "world \<Rightarrow> error \<Rightarrow> item \<Rightarrow> crawler \<Rightarrow> (error + unit) \<times> crawler" where
  "on_rejected w reason it s =
     (let s1 = s\<lparr>failedUrls := insert (item_url it) (failedUrls s)\<rparr> in
      case emit w ''error'' (Page_error (item_url it) reason) s1 of
        (Inl e, s2) \<Rightarrow> (Inl e, s2)
      | (Inr b, s2) \<Rightarrow> (Inr (), s2))"

text \<open>The \<^verbatim>\<open>for\<close> loop, lines 77 to 106, over the outcomes and their items.\<close>

fun process_results ::
  "world \<Rightarrow> options \<Rightarrow> ((error + page_result option) \<times> item) list \<Rightarrow> item list \<Rightarrow> crawler
    \<Rightarrow> (error + item list) \<times> crawler" where
  "process_results w opts [] queue s = (Inr queue, s)"
| "process_results w opts ((Inr (Some crawlResult), it) # rest) queue s =
     (case on_fulfilled w opts crawlResult it queue s of
        (Inl e, s1) \<Rightarrow> (Inl e, s1)
      | (Inr queue1, s1) \<Rightarrow> process_results w opts rest queue1 s1)"
| "process_results w opts ((Inl reason, it) # rest) queue s =
     (case on_rejected w reason it s of
        (Inl e, s1) \<Rightarrow> (Inl e, s1)
      | (Inr u, s1) \<Rightarrow> process_results w opts rest queue s1)"
| "process_results w opts ((Inr None, it) # rest) queue s =
     process_results w opts rest queue s"

text \<open>
  The body of the \<^verbatim>\<open>while\<close> loop, lines 70 to 111. \<^verbatim>\<open>splice(0, n)\<close> removes no
  item when \<open>n\<close> is not positive.
\<close>

definition crawl_batch ::
  "world \<Rightarrow> options \<Rightarrow> item list \<Rightarrow> crawler \<Rightarrow> (error + item list) \<times> crawler" where
  "crawl_batch w opts queue s =
     (let batch = take (nat (maxConcurrency opts)) queue;
          queue1 = drop (nat (maxConcurrency opts)) queue
      in case dispatch w opts batch s of
           (batchResults, s1) \<Rightarrow>
             (case process_results w opts (zip batchResults batch) queue1 s1 of
                (Inl e, s2) \<Rightarrow> (Inl e, s2)
              | (Inr queue2, s2) \<Rightarrow>
                  (Inr queue2,
                   if length queue2 > 0 \<and> delay opts > 0 then sleep (delay opts) s2 else s2)))"

text \<open>
  The \<^verbatim>\<open>while\<close> loop, lines 69 to 112. Nothing bounds the number of its rounds in
  the text of the loop, so it is a partial function: \<open>None\<close> is a loop that never ends.
\<close>

partial_function (option) crawl_loop ::
  "world \<Rightarrow> options \<Rightarrow> item list \<Rightarrow> crawler \<Rightarrow> ((error + unit) \<times> crawler) option" where
  "crawl_loop w opts queue s =
     (if length queue > 0 \<and> int (length (results s)) < maxPages opts then
        (case crawl_batch w opts queue s of
           (Inl e, s1) \<Rightarrow> Some (Inl e, s1)
         | (Inr queue1, s1) \<Rightarrow> crawl_loop w opts queue1 s1)
      else Some (Inr (), s))"

text \<open>Lines 115 to 120. The quotient is exact here; the source rounds it to a double.\<close>

definition summary_of :: "crawler \<Rightarrow> int \<Rightarrow> int \<Rightarrow> summary" where
  "summary_of s startTime endTime =
     \<lparr>totalPages = length (results s),
      failedPages = card (failedUrls s),
      totalTime = endTime - startTime,
      averageTime =
        (if length (results s) > 0
         then real_of_int (endTime - startTime) / real (length (results s)) else 0)\<rparr>"

text \<open>The \<^verbatim>\<open>catch\<close> of \<^verbatim>\<open>crawl\<close>, lines 127 to 131.\<close>

definition crawl_catch ::
  "world \<Rightarrow> error \<Rightarrow> crawler \<Rightarrow> (error + crawl_output) \<times> crawler" where
  "crawl_catch w e s =
     (case emit w ''error'' (Fatal e) s of
        (Inl e', s1) \<Rightarrow> (Inl e', s1)
      | (Inr b, s1) \<Rightarrow> (Inl e, s1))"

text \<open>Lines 114 to 125, after the loop.\<close>

definition crawl_finish ::
  "world \<Rightarrow> int \<Rightarrow> crawler \<Rightarrow> (error + crawl_output) \<times> crawler" where
  "crawl_finish w startTime s =
     (case Date_now w s of
        (endTime, s1) \<Rightarrow>
          (let summ = summary_of s1 startTime endTime in
           case emit w ''complete'' (Complete (results s1) summ) s1 of
             (Inl e, s2) \<Rightarrow> crawl_catch w e s2
           | (Inr b, s2) \<Rightarrow> (Inr \<lparr>out_results = results s2, out_summary = summ\<rparr>, s2)))"

definition crawl ::
  "world \<Rightarrow> options \<Rightarrow> url \<Rightarrow> crawler \<Rightarrow> ((error + crawl_output) \<times> crawler) option" where
  "crawl w opts startUrl s =
     (case Date_now w s of
        (startTime, s0) \<Rightarrow>
          (case crawl_loop w opts [\<lparr>item_url = startUrl, item_depth = 0, item_parent = None\<rparr>] s0 of
             None \<Rightarrow> None
           | Some (Inl e, s1) \<Rightarrow> Some (crawl_catch w e s1)
           | Some (Inr u, s1) \<Rightarrow> Some (crawl_finish w startTime s1)))"

subsection \<open>Predicates of the statements\<close>

text \<open>
  The discipline of \<^verbatim>\<open>visitedUrls\<close> on a sequence of effects. \<open>V\<close> are the URLs
  visited before the sequence starts and \<open>A\<close> the URLs added so far: an addition is of
  a URL that is in neither, and a page request is for a URL added before it.
\<close>

fun visit_order :: "url set \<Rightarrow> url set \<Rightarrow> effect list \<Rightarrow> bool" where
  "visit_order V A [] = True"
| "visit_order V A (VisitedAdd u # es) = (u \<notin> V \<and> u \<notin> A \<and> visit_order V (insert u A) es)"
| "visit_order V A (Get_page u # es) = (u \<in> A \<and> visit_order V A es)"
| "visit_order V A (Get_robots u # es) = visit_order V A es"
| "visit_order V A (Sleep ms # es) = visit_order V A es"
| "visit_order V A (DateNow # es) = visit_order V A es"
| "visit_order V A (Emit name p # es) = visit_order V A es"

fun added :: "effect list \<Rightarrow> url list" where
  "added [] = []"
| "added (VisitedAdd u # es) = u # added es"
| "added (e # es) = added es"

text \<open>The effects that change no field and are no request.\<close>

fun inert :: "effect \<Rightarrow> bool" where
  "inert (Sleep ms) = True"
| "inert DateNow = True"
| "inert (Emit name p) = True"
| "inert e = False"

text \<open>
  A predicate on instances that the writes of \<^verbatim>\<open>crawl\<close> itself keep: a push to
  \<^verbatim>\<open>results\<close>, an addition to \<^verbatim>\<open>failedUrls\<close>, an inert effect.
\<close>

definition kept_by_crawl :: "(crawler \<Rightarrow> bool) \<Rightarrow> bool" where
  "kept_by_crawl Q \<longleftrightarrow>
     (\<forall>s r. Q s \<longrightarrow> Q (s\<lparr>results := results s @ [r]\<rparr>))
     \<and> (\<forall>s u. Q s \<longrightarrow> Q (s\<lparr>failedUrls := insert u (failedUrls s)\<rparr>))
     \<and> (\<forall>s e. Q s \<longrightarrow> inert e \<longrightarrow> Q (record_effect e s))"

text \<open>
  A predicate \<open>Q\<close> on instances, with a predicate \<open>J\<close> on the calls of a batch, that
  the calls keep: \<open>J\<close> holds of a call that has not started; a step of a call keeps \<open>Q\<close>,
  gives \<open>J\<close> of the call after the step, and keeps \<open>J\<close> of every other call.
\<close>

definition kept_by_calls ::
  "world \<Rightarrow> options \<Rightarrow> (crawler \<Rightarrow> bool) \<Rightarrow> (item \<Rightarrow> call \<Rightarrow> crawler \<Rightarrow> bool) \<Rightarrow> bool" where
  "kept_by_calls w opts Q J \<longleftrightarrow>
     (\<forall>it s. Q s \<longrightarrow> J it Start s)
     \<and> (\<forall>it c s c' s'. Q s \<longrightarrow> J it c s \<longrightarrow> call_step w opts it c s = (c', s') \<longrightarrow>
           Q s' \<and> J it c' s' \<and> (\<forall>it2 c2. J it2 c2 s \<longrightarrow> J it2 c2 s'))"

text \<open>No field of the instance loses anything from \<open>s\<close> to \<open>s'\<close>.\<close>

definition extends :: "crawler \<Rightarrow> crawler \<Rightarrow> bool" where
  "extends s s' \<longleftrightarrow>
     prefix (results s) (results s') \<and> visitedUrls s \<subseteq> visitedUrls s'
     \<and> failedUrls s \<subseteq> failedUrls s' \<and> robotsCache s \<subseteq>\<^sub>m robotsCache s'
     \<and> prefix (trace s) (trace s')"

subsection \<open>A small site, for evaluating the definitions\<close>

text \<open>
  The page \<^verbatim>\<open>http://a.test/\<close> links to three pages of its host that answer with
  HTML, to \<^verbatim>\<open>/admin/z\<close>, which refuses every connection, to another host, to a
  mail address, and a second time to \<^verbatim>\<open>/x\<close>. The page \<^verbatim>\<open>/w\<close> has a title of a
  no-break space, an ideographic space and a space, and two \<open>h1\<close> headings of white
  space; the pages \<^verbatim>\<open>/x\<close> and \<^verbatim>\<open>/y\<close> have no element that the code asks for. No
  host serves a robots file. Every event has one listener, which returns. The pending
  calls of a batch are resumed in turn.
\<close>

definition a_test :: parsed_url where
  "a_test = \<lparr>protocol = ''http:'', host = ''a.test'', hostname = ''a.test''\<rparr>"

definition site_parse :: "string \<Rightarrow> error + parsed_url" where
  "site_parse u =
     (if u \<in> set [''http://a.test/'', ''http://a.test/x'', ''http://a.test/y'',
                  ''http://a.test/w'', ''http://a.test/admin/z'']
      then Inr a_test
      else if u = ''http://b.test/''
        then Inr \<lparr>protocol = ''http:'', host = ''b.test'', hostname = ''b.test''\<rparr>
      else if u = ''mailto:me@a.test''
        then Inr \<lparr>protocol = ''mailto:'', host = [], hostname = []\<rparr>
      else Inl (Error ''Invalid URL''))"

definition anchor :: "string \<Rightarrow> element" where
  "anchor href = \<lparr>attribs = [(''href'', href)], text_content = utf16 ''link''\<rparr>"

definition site_doc :: "js_text \<Rightarrow> cheerio" where
  "site_doc body sel =
     (if body = utf16 ''home'' then
        (if sel = ''title'' then [\<lparr>attribs = [], text_content = utf16 '' Home ''\<rparr>]
         else if sel = ''a[href]'' then
           [anchor ''http://a.test/x'', anchor ''http://b.test/'', anchor ''http://a.test/y'',
            anchor ''http://a.test/admin/z'', anchor ''mailto:me@a.test'',
            anchor ''http://a.test/x'', anchor ''http://a.test/w'']
         else [])
      else if body = utf16 ''void'' then
        (if sel = ''title'' then [\<lparr>attribs = [], text_content = [0x00A0, 0x3000, 0x0020]\<rparr>]
         else if sel = ''h1'' then
           [\<lparr>attribs = [], text_content = [0xFEFF, 0x2003]\<rparr>,
            \<lparr>attribs = [], text_content = utf16 '' ''\<rparr>]
         else [])
      else [])"

definition html :: "string \<Rightarrow> response" where
  "html body =
     \<lparr>status = 200, content_type_header = Some ''text/html; charset=utf-8'',
      data = utf16 body, responseUrl = None\<rparr>"

definition site_get :: "nat \<Rightarrow> url \<Rightarrow> error + response" where
  "site_get n u =
     (if u = ''http://a.test/'' then Inr (html ''home'')
      else if u \<in> set [''http://a.test/x'', ''http://a.test/y''] then Inr (html ''leaf'')
      else if u = ''http://a.test/w'' then Inr (html ''void'')
      else Inl (Error ''ECONNREFUSED''))"

definition site :: world where
  "site =
     \<lparr>httpGet = site_get,
      dateNow = (\<lambda>n. if n = 0 then 0 else 2000),
      cheerio_load = site_doc,
      urlParse = site_parse,
      urlResolve = (\<lambda>href base. Inr href),
      regExpTest = (\<lambda>pattern u. Inr (str_includes u pattern)),
      robotsParser = (\<lambda>u body. Inr (Robots u body)),
      robotsIsAllowed = (\<lambda>rb u ua. Inr (Some True)),
      listeners = (\<lambda>name. [\<lambda>p. None]),
      schedule = (\<lambda>n k. k)\<rparr>"

text \<open>The defaults of the constructor, lines 14 to 25.\<close>

definition defaults :: options where
  "defaults =
     \<lparr>maxDepth = 3, maxPages = 100, maxConcurrency = 5, delay = 1000, timeout = 30000,
      followExternalLinks = False, respectRobotsTxt = True, userAgent = ''WebCrawler-JS/1.0'',
      allowedDomains = [], excludePatterns = [], includePatterns = [], maxRetries = 3\<rparr>"

definition leaf :: "url \<Rightarrow> int \<Rightarrow> url option \<Rightarrow> page_result" where
  "leaf u d p =
     \<lparr>url = u, originalUrl = u, title = utf16 ''No title'', description = [],
      page_keywords = [],
      headings = [(''h1'', []), (''h2'', []), (''h3'', []), (''h4'', []), (''h5'', []), (''h6'', [])],
      links = [], images = [], statusCode = 200, contentLength = 4,
      contentType = ''text/html; charset=utf-8'', crawlTime = 0, depth = d, parent = p,
      timestamp = 2000\<rparr>"

definition home :: page_result where
  "home =
     \<lparr>url = ''http://a.test/'', originalUrl = ''http://a.test/'',
      title = utf16 ''Home'',
      description = [], page_keywords = [],
      headings = [(''h1'', []), (''h2'', []), (''h3'', []), (''h4'', []), (''h5'', []), (''h6'', [])],
      links = map (\<lambda>u. \<lparr>link_url = u, link_text = utf16 ''link'', link_title = []\<rparr>)
        [''http://a.test/x'', ''http://b.test/'', ''http://a.test/y'', ''http://a.test/admin/z'',
         ''mailto:me@a.test'', ''http://a.test/x'', ''http://a.test/w''],
      images = [], statusCode = 200, contentLength = 4,
      contentType = ''text/html; charset=utf-8'', crawlTime = 0, depth = 0, parent = None,
      timestamp = 2000\<rparr>"

text \<open>What \<open>crawl\<close> returns on this site with the defaults.\<close>

definition site_out :: crawl_output where
  "site_out =
     \<lparr>out_results =
        [home, leaf ''http://a.test/x'' 1 (Some ''http://a.test/''),
         leaf ''http://a.test/y'' 1 (Some ''http://a.test/''),
         leaf ''http://a.test/w'' 1 (Some ''http://a.test/'')],
      out_summary = \<lparr>totalPages = 4, failedPages = 1, totalTime = 2000, averageTime = 500\<rparr>\<rparr>"

text \<open>The defaults, with the one exclusion pattern \<^verbatim>\<open>/admin\<close>.\<close>

definition no_admin :: options where
  "no_admin = defaults\<lparr>excludePatterns := [''/admin'']\<rparr>"

text \<open>The effects of that run, but for the clock readings and the events.\<close>

definition site_effects :: "effect list" where
  "site_effects =
     [VisitedAdd ''http://a.test/'', Get_robots ''http://a.test/robots.txt'',
      Get_page ''http://a.test/'', Sleep 1000,
      VisitedAdd ''http://a.test/x'', VisitedAdd ''http://a.test/y'',
      VisitedAdd ''http://a.test/admin/z'', VisitedAdd ''http://a.test/w'',
      Get_page ''http://a.test/x'', Get_page ''http://a.test/y'',
      Get_page ''http://a.test/admin/z'', Get_page ''http://a.test/w'',
      Sleep 1000,
      Get_page ''http://a.test/admin/z'', Sleep 2000,
      Get_page ''http://a.test/admin/z'', Sleep 3000,
      Get_page ''http://a.test/admin/z'']"

text \<open>The defaults, with room for two pages.\<close>

definition two_pages :: options where
  "two_pages = defaults\<lparr>maxPages := 2\<rparr>"

text \<open>The same site, when the caller has registered no listener.\<close>

definition site_unheard :: world where
  "site_unheard = site\<lparr>listeners := (\<lambda>name. [])\<rparr>"

text \<open>The equations that evaluate a run on the small site.\<close>

lemmas unfold_all =
  crawl_def crawl_loop.simps crawl_batch_def crawl_finish_def crawl_catch_def summary_of_def
  dispatch_def run_calls.simps mod_Suc enter_loop_def request_page_def page_settle_def robots_store_def
  robots_answer_def
  on_fulfilled_def on_rejected_def enqueue_def crawlPage_def visit_def crawlPage_fetch_def crawlPage_loop.simps
  crawlPage_try_def page_info_def isAllowedByRobots_def isAllowedByRobots_try_def fetch_robots_def
  cache_set_def extractAndFilterUrls_def keeps_def new_Set_def set_add_def extractLinks_def
  link_of_def extractImages_def image_of_def extractHeadings_def heading_tags_def emit_def
  unhandled_def get_page_def get_robots_def Date_now_def sleep_def record_effect_def
  new_WebCrawler_def attr_def text_of_def or_else_def trim_def isWhiteSpace_def utf16_def
  Let_def

lemmas unfold_site =
  a_test_def site_parse_def anchor_def site_doc_def html_def site_get_def site_def defaults_def
  leaf_def home_def

section \<open>Properties\<close>

subsection \<open>The primitive steps\<close>

lemma record_effect_fields [simp]:
  "visitedUrls (record_effect e s) = visitedUrls s"
  "failedUrls (record_effect e s) = failedUrls s"
  "results (record_effect e s) = results s"
  "robotsCache (record_effect e s) = robotsCache s"
  "trace (record_effect e s) = trace s @ [e]"
  by (simp_all add: record_effect_def)

lemma sleep_fields [simp]:
  "visitedUrls (sleep ms s) = visitedUrls s"
  "failedUrls (sleep ms s) = failedUrls s"
  "results (sleep ms s) = results s"
  "robotsCache (sleep ms s) = robotsCache s"
  "trace (sleep ms s) = trace s @ [Sleep ms]"
  by (simp_all add: sleep_def)

lemma visit_fields [simp]:
  "visitedUrls (visit u s) = insert u (visitedUrls s)"
  "failedUrls (visit u s) = failedUrls s"
  "results (visit u s) = results s"
  "robotsCache (visit u s) = robotsCache s"
  "trace (visit u s) = trace s @ [VisitedAdd u]"
  by (simp_all add: visit_def)

lemma cache_set_fields [simp]:
  "visitedUrls (cache_set k v s) = visitedUrls s"
  "failedUrls (cache_set k v s) = failedUrls s"
  "results (cache_set k v s) = results s"
  "robotsCache (cache_set k v s) = (robotsCache s)(k \<mapsto> v)"
  "trace (cache_set k v s) = trace s"
  by (simp_all add: cache_set_def)

lemma Date_now_eq: "Date_now w s = (t, s') \<Longrightarrow> t = dateNow w (length (trace s)) \<and> s' = record_effect DateNow s"
  by (auto simp: Date_now_def)

lemma get_page_eq: "get_page w u s = (r, s') \<Longrightarrow> r = httpGet w (length (trace s)) u \<and> s' = record_effect (Get_page u) s"
  by (auto simp: get_page_def)

lemma get_robots_eq: "get_robots w u s = (r, s') \<Longrightarrow> r = httpGet w (length (trace s)) u \<and> s' = record_effect (Get_robots u) s"
  by (auto simp: get_robots_def)

lemma emit_state: "emit w name p s = (r, s') \<Longrightarrow> s' = record_effect (Emit name p) s"
  by (auto simp: emit_def Let_def split: list.splits if_splits)

subsection \<open>The summary\<close>

lemma crawl_catch_Inl: "crawl_catch w e s = (r, s') \<Longrightarrow> isl r"
  by (auto simp: crawl_catch_def split: prod.splits sum.splits)

lemma crawl_finish_Inr:
  assumes "crawl_finish w startTime s = (Inr out, s')"
  shows "out_results out = results s' \<and> results s' = results s \<and> failedUrls s' = failedUrls s
    \<and> out_summary out = summary_of s startTime (dateNow w (length (trace s)))
    \<and> trace s' = trace s @ [DateNow, Emit ''complete'' (Complete (results s) (out_summary out))]"
  using assms
  by (auto simp: crawl_finish_def Let_def summary_of_def split: prod.splits sum.splits
      dest!: Date_now_eq emit_state crawl_catch_Inl)

text \<open>
  C8. When \<open>crawl\<close> returns, \<open>totalPages\<close> is the length of the returned results, which
  are the \<open>results\<close> of the instance, \<open>failedPages\<close> is the size of \<open>failedUrls\<close>,
  \<open>totalTime\<close> is the difference of the two clock readings, and \<open>averageTime\<close> is
  \<open>totalTime / totalPages\<close>, or 0 when there is no page.
\<close>

theorem crawl_summary:
  assumes "crawl w opts startUrl s = Some (Inr out, s')"
  shows "totalPages (out_summary out) = length (out_results out)
    \<and> out_results out = results s'
    \<and> failedPages (out_summary out) = card (failedUrls s')
    \<and> totalTime (out_summary out)
        = dateNow w (length (trace s') - 2) - dateNow w (length (trace s))
    \<and> averageTime (out_summary out)
        = (if totalPages (out_summary out) > 0
           then real_of_int (totalTime (out_summary out)) / real (totalPages (out_summary out))
           else 0)"
proof -
  obtain startTime s0 where d: "Date_now w s = (startTime, s0)"
    by (cases "Date_now w s")
  from assms d obtain s1 where fin: "crawl_finish w startTime s1 = (Inr out, s')"
    by (auto simp: crawl_def split: option.splits sum.splits prod.splits dest: crawl_catch_Inl)
  from d have st: "startTime = dateNow w (length (trace s))"
    by (simp add: Date_now_def)
  from crawl_finish_Inr [OF fin] st show ?thesis
    by (simp add: summary_of_def)
qed

lemma site_run_state:
  "\<exists>s'. crawl site defaults ''http://a.test/'' new_WebCrawler = Some (Inr site_out, s')
     \<and> visitedUrls s' = {''http://a.test/w'', ''http://a.test/admin/z'', ''http://a.test/y'',
          ''http://a.test/x'', ''http://a.test/''}
     \<and> failedUrls s' = {''http://a.test/admin/z''}
     \<and> results s' = out_results site_out
     \<and> filter (\<lambda>e. case e of Emit name p \<Rightarrow> False | DateNow \<Rightarrow> False | _ \<Rightarrow> True) (trace s')
         = site_effects"
  by (simp add: unfold_all unfold_site site_out_def site_effects_def)

lemma site_run:
  "\<exists>s'. crawl site defaults ''http://a.test/'' new_WebCrawler = Some (Inr site_out, s')"
proof -
  from site_run_state obtain s' where
    "crawl site defaults ''http://a.test/'' new_WebCrawler = Some (Inr site_out, s')"
    by (elim exE conjE)
  then show ?thesis ..
qed

theorem crawl_summary_witness:
  "(\<exists>s'. crawl site defaults ''http://a.test/'' new_WebCrawler = Some (Inr site_out, s'))
    \<and> totalPages (out_summary site_out) = length (out_results site_out)
    \<and> totalPages (out_summary site_out) = 4
    \<and> totalTime (out_summary site_out) = 2000
    \<and> averageTime (out_summary site_out) = 500"
proof -
  from site_run obtain s' where
    run: "crawl site defaults ''http://a.test/'' new_WebCrawler = Some (Inr site_out, s')"
    by blast
  have a: "\<exists>s'. crawl site defaults ''http://a.test/'' new_WebCrawler = Some (Inr site_out, s')"
    using run by blast
  have b: "totalPages (out_summary site_out) = length (out_results site_out)"
    using crawl_summary [OF run] by blast
  have c: "totalPages (out_summary site_out) = 4" "totalTime (out_summary site_out) = 2000"
    "averageTime (out_summary site_out) = 500"
    by (simp_all add: site_out_def)
  from a b c show ?thesis
    by blast
qed

subsection \<open>The page information\<close>

lemma crawlPage_try_page:
  assumes "crawlPage_try w u d p st s = (Inr (Some r), s')"
  shows "\<exists>resp ct endT ls nowT.
    httpGet w (length (trace s)) u = Inr resp \<and> r = page_info w u d p st resp ct endT ls nowT"
  using assms
  by (auto simp: crawlPage_try_def get_page_def Let_def
      split: prod.splits sum.splits if_splits)

lemma crawlPage_loop_page:
  "crawlPage_loop w opts u d p st n s = (Inr (Some r), s') \<Longrightarrow>
   \<exists>k resp ct endT ls nowT. httpGet w k u = Inr resp \<and> r = page_info w u d p st resp ct endT ls nowT"
proof (induction w opts u d p st n s rule: crawlPage_loop.induct)
  case (1 w opts u d p startTime retries s)
  show ?case
  proof (cases "crawlPage_try w u d p startTime s")
    case (Pair a s1)
    show ?thesis
    proof (cases a)
      case (Inl e)
      with Pair "1.prems" "1.IH" show ?thesis
        by (subst (asm) crawlPage_loop.simps) (simp split: if_splits)
    next
      case (Inr v)
      with Pair "1.prems" have "crawlPage_try w u d p startTime s = (Inr (Some r), s')"
        by (subst (asm) crawlPage_loop.simps) (simp split: if_splits)
      from crawlPage_try_page [OF this] show ?thesis
        by blast
    qed
  qed
qed

lemma crawlPage_page:
  assumes "crawlPage w opts u d p s = (Inr (Some r), s')"
  shows "\<exists>k resp st ct endT ls nowT.
    httpGet w k u = Inr resp \<and> r = page_info w u d p st resp ct endT ls nowT"
proof -
  from assms obtain st s1 where "crawlPage_loop w opts u d p st 0 s1 = (Inr (Some r), s')"
    by (auto simp: crawlPage_def crawlPage_fetch_def Let_def
        split: if_splits prod.splits sum.splits)
  from crawlPage_loop_page [OF this] show ?thesis
    by blast
qed

lemma extractHeadings_keys: "map fst (extractHeadings doc) = heading_tags"
  by (simp add: extractHeadings_def comp_def)

lemma extractHeadings_empty:
  "tag \<in> set heading_tags \<Longrightarrow> doc tag = [] \<Longrightarrow> map_of (extractHeadings doc) tag = Some []"
  by (auto simp: extractHeadings_def heading_tags_def)

lemma extractHeadings_entry:
  "tag \<in> set heading_tags \<Longrightarrow>
   map_of (extractHeadings doc) tag
     = Some (filter (\<lambda>t. t \<noteq> []) (map (\<lambda>el. trim (text_of [el])) (doc tag)))"
  by (auto simp: extractHeadings_def heading_tags_def)

subsection \<open>\<open>trim\<close>\<close>

lemma dropWhile_all: "(\<forall>c \<in> set (dropWhile P s). P c) \<longleftrightarrow> (\<forall>c \<in> set s. P c)"
  by (induction s) auto

lemma trim_blank: "trim s = [] \<longleftrightarrow> (\<forall>c \<in> set s. isWhiteSpace c)"
  by (simp add: trim_def dropWhile_eq_Nil_conv dropWhile_all)

lemma trim_parts:
  "s = takeWhile isWhiteSpace s @ trim s
     @ rev (takeWhile isWhiteSpace (rev (dropWhile isWhiteSpace s)))"
proof -
  let ?m = "dropWhile isWhiteSpace s"
  have "rev ?m = takeWhile isWhiteSpace (rev ?m) @ dropWhile isWhiteSpace (rev ?m)"
    by simp
  then have "rev (rev ?m)
      = rev (dropWhile isWhiteSpace (rev ?m)) @ rev (takeWhile isWhiteSpace (rev ?m))"
    by (metis rev_append)
  then have "?m = trim s @ rev (takeWhile isWhiteSpace (rev ?m))"
    by (simp add: trim_def)
  moreover have "s = takeWhile isWhiteSpace s @ ?m"
    by simp
  ultimately show ?thesis
    by metis
qed

lemma trim_ends:
  assumes "trim s \<noteq> []"
  shows "\<not> isWhiteSpace (hd (trim s)) \<and> \<not> isWhiteSpace (last (trim s))"
proof -
  let ?m = "dropWhile isWhiteSpace s"
  let ?k = "dropWhile isWhiteSpace (rev ?m)"
  from assms have k: "?k \<noteq> []"
    by (simp add: trim_def)
  then have "\<not> isWhiteSpace (hd ?k)"
    by (rule hd_dropWhile)
  moreover have "last (trim s) = hd ?k"
    using k by (simp add: trim_def last_rev)
  moreover from k have m: "?m \<noteq> []"
    by (cases "?m = []") simp_all
  then have "\<not> isWhiteSpace (hd ?m)"
    by (rule hd_dropWhile)
  moreover have "?m = trim s @ rev (takeWhile isWhiteSpace (rev ?m))"
    using trim_parts [of s] by (metis same_append_eq takeWhile_dropWhile_id)
  then have "hd ?m = hd (trim s)"
    using assms by (metis hd_append2)
  ultimately show ?thesis
    by simp
qed

lemma trim_white_ends:
  "\<exists>a b. s = a @ trim s @ b \<and> (\<forall>c \<in> set a. isWhiteSpace c) \<and> (\<forall>c \<in> set b. isWhiteSpace c)"
proof -
  let ?a = "takeWhile isWhiteSpace s"
  let ?b = "rev (takeWhile isWhiteSpace (rev (dropWhile isWhiteSpace s)))"
  have "s = ?a @ trim s @ ?b"
    by (rule trim_parts)
  moreover have "\<forall>c \<in> set ?a. isWhiteSpace c"
    using set_takeWhileD by fastforce
  moreover have "\<forall>c \<in> set ?b. isWhiteSpace c"
    unfolding set_rev using set_takeWhileD by fastforce
  ultimately show ?thesis
    by (intro exI conjI)
qed

lemma title_of_page:
  "title (page_info w u d p st resp ct endT ls nowT)
     = (if trim (text_of (cheerio_load w (data resp) ''title'')) = [] then utf16 ''No title''
        else trim (text_of (cheerio_load w (data resp) ''title'')))"
  by (simp add: page_info_def Let_def or_else_def)

lemma text_of_Nil: "text_of [] = []"
  by (simp add: text_of_def)

lemma trim_Nil: "trim [] = []"
  by (simp add: trim_def)

lemma headings_blank:
  "(\<forall>el \<in> set els. \<forall>c \<in> set (text_content el). isWhiteSpace c) \<Longrightarrow>
     filter (\<lambda>t. t \<noteq> []) (map (\<lambda>el. trim (text_of [el])) els) = []"
  by (induction els) (simp_all add: trim_blank text_of_def)

text \<open>
  C9. A page that \<open>crawlPage\<close> returns was built from a response to a request for its
  URL. Its title is \<open>No title\<close> when the document has no \<open>title\<close> element and when
  the text of the element is white space only, which is when its trimmed text is
  empty; otherwise it is the trimmed text: the text without the white space at its two
  ends, so that it starts and ends with a character that is no white space. Its
  description and its keywords are empty when the document has no such \<open>meta\<close>
  element. Its headings have the six keys \<open>h1\<close> to \<open>h6\<close>, in this order, each with
  the non-empty trimmed texts of its elements, so with the empty list when there is no
  element and when the elements have white space only.
\<close>

theorem crawlPage_fallbacks:
  assumes "crawlPage w opts u d p s = (Inr (Some r), s')"
  shows \<open>\<exists>k resp. httpGet w k u = Inr resp \<and>
     (let doc = cheerio_load w (data resp) in
       (doc ''title'' = [] \<or> trim (text_of (doc ''title'')) = [] \<longrightarrow>
          title r = utf16 ''No title'') \<and>
       ((\<forall>c \<in> set (text_of (doc ''title'')). isWhiteSpace c) \<longrightarrow> title r = utf16 ''No title'') \<and>
       (trim (text_of (doc ''title'')) \<noteq> [] \<longrightarrow> title r = trim (text_of (doc ''title''))) \<and>
       ((\<exists>c \<in> set (text_of (doc ''title'')). \<not> isWhiteSpace c) \<longrightarrow>
          \<not> isWhiteSpace (hd (title r)) \<and> \<not> isWhiteSpace (last (title r))
          \<and> (\<exists>a b. text_of (doc ''title'') = a @ title r @ b
                \<and> (\<forall>c \<in> set a. isWhiteSpace c) \<and> (\<forall>c \<in> set b. isWhiteSpace c))) \<and>
       (doc ''meta[name="description"]'' = [] \<longrightarrow> description r = []) \<and>
       (doc ''meta[name="keywords"]'' = [] \<longrightarrow> page_keywords r = []) \<and>
       map fst (headings r) = [''h1'', ''h2'', ''h3'', ''h4'', ''h5'', ''h6''] \<and>
       (\<forall>tag \<in> set [''h1'', ''h2'', ''h3'', ''h4'', ''h5'', ''h6''].
          map_of (headings r) tag
            = Some (filter (\<lambda>t. t \<noteq> []) (map (\<lambda>el. trim (text_of [el])) (doc tag))) \<and>
          (doc tag = [] \<longrightarrow> map_of (headings r) tag = Some []) \<and>
          ((\<forall>el \<in> set (doc tag). \<forall>c \<in> set (text_content el). isWhiteSpace c) \<longrightarrow>
             map_of (headings r) tag = Some [])))\<close>
proof -
  from crawlPage_page [OF assms] obtain k resp st ct endT ls nowT where
    get: "httpGet w k u = Inr resp" and r: "r = page_info w u d p st resp ct endT ls nowT"
    by blast
  define doc where "doc = cheerio_load w (data resp)"
  define tt where "tt = text_of (doc ''title'')"
  have t: "title r = (if trim tt = [] then utf16 ''No title'' else trim tt)"
    unfolding r tt_def doc_def by (rule title_of_page)
  have de: \<open>description r = or_else (attr (doc ''meta[name="description"]'') ''content'') []\<close>
    by (simp add: r page_info_def Let_def doc_def)
  have ke: \<open>page_keywords r = or_else (attr (doc ''meta[name="keywords"]'') ''content'') []\<close>
    by (simp add: r page_info_def Let_def doc_def)
  have h: "headings r = extractHeadings doc"
    by (simp add: r page_info_def Let_def doc_def)
  have "doc ''title'' = [] \<longrightarrow> trim tt = []"
    by (simp add: tt_def text_of_Nil trim_Nil)
  then have c1: "doc ''title'' = [] \<or> trim tt = [] \<longrightarrow> title r = utf16 ''No title''"
    unfolding t by (cases "trim tt = []") simp_all
  have c1': "(\<forall>c \<in> set tt. isWhiteSpace c) \<longrightarrow> title r = utf16 ''No title''"
    unfolding t trim_blank [symmetric] by simp
  have c2: "trim tt \<noteq> [] \<longrightarrow> title r = trim tt"
    unfolding t by simp
  have c2': "(\<exists>c \<in> set tt. \<not> isWhiteSpace c) \<longrightarrow>
          \<not> isWhiteSpace (hd (title r)) \<and> \<not> isWhiteSpace (last (title r))
          \<and> (\<exists>a b. tt = a @ title r @ b
                \<and> (\<forall>c \<in> set a. isWhiteSpace c) \<and> (\<forall>c \<in> set b. isWhiteSpace c))"
  proof
    assume "\<exists>c \<in> set tt. \<not> isWhiteSpace c"
    then have ne: "trim tt \<noteq> []"
      by (simp add: trim_blank)
    then have eq: "title r = trim tt"
      unfolding t by simp
    from trim_ends [OF ne] trim_white_ends [of tt]
    show "\<not> isWhiteSpace (hd (title r)) \<and> \<not> isWhiteSpace (last (title r))
          \<and> (\<exists>a b. tt = a @ title r @ b
                \<and> (\<forall>c \<in> set a. isWhiteSpace c) \<and> (\<forall>c \<in> set b. isWhiteSpace c))"
      unfolding eq by simp
  qed
  have c3: \<open>doc ''meta[name="description"]'' = [] \<longrightarrow> description r = []\<close>
    unfolding de by (simp add: or_else_def attr_def)
  have c4: \<open>doc ''meta[name="keywords"]'' = [] \<longrightarrow> page_keywords r = []\<close>
    unfolding ke by (simp add: or_else_def attr_def)
  have c5: "map fst (headings r) = [''h1'', ''h2'', ''h3'', ''h4'', ''h5'', ''h6'']"
    unfolding h by (simp add: extractHeadings_keys heading_tags_def)
  have c6: "\<forall>tag \<in> set [''h1'', ''h2'', ''h3'', ''h4'', ''h5'', ''h6''].
          map_of (headings r) tag
            = Some (filter (\<lambda>t. t \<noteq> []) (map (\<lambda>el. trim (text_of [el])) (doc tag))) \<and>
          (doc tag = [] \<longrightarrow> map_of (headings r) tag = Some []) \<and>
          ((\<forall>el \<in> set (doc tag). \<forall>c \<in> set (text_content el). isWhiteSpace c) \<longrightarrow>
             map_of (headings r) tag = Some [])"
  proof
    fix tag assume "tag \<in> set [''h1'', ''h2'', ''h3'', ''h4'', ''h5'', ''h6'']"
    then have "tag \<in> set heading_tags"
      by (simp only: heading_tags_def)
    from extractHeadings_entry [OF this, of doc]
    have e: "map_of (headings r) tag
        = Some (filter (\<lambda>t. t \<noteq> []) (map (\<lambda>el. trim (text_of [el])) (doc tag)))"
      unfolding h .
    have e1: "doc tag = [] \<longrightarrow> map_of (headings r) tag = Some []"
      unfolding e by simp
    have e2: "(\<forall>el \<in> set (doc tag). \<forall>c \<in> set (text_content el). isWhiteSpace c) \<longrightarrow>
        map_of (headings r) tag = Some []"
      unfolding e using headings_blank [of "doc tag"] by simp
    from e e1 e2 show
      "map_of (headings r) tag
            = Some (filter (\<lambda>t. t \<noteq> []) (map (\<lambda>el. trim (text_of [el])) (doc tag))) \<and>
          (doc tag = [] \<longrightarrow> map_of (headings r) tag = Some []) \<and>
          ((\<forall>el \<in> set (doc tag). \<forall>c \<in> set (text_content el). isWhiteSpace c) \<longrightarrow>
             map_of (headings r) tag = Some [])"
      by (intro conjI)
  qed
  note cs = c1 c1' c2 c2' c3 c4 c5 c6
  show ?thesis
    unfolding Let_def
    by (rule exI [of _ k], rule exI [of _ resp])
      (intro conjI get cs [unfolded doc_def tt_def])
qed

text \<open>
  On the small site: the page \<^verbatim>\<open>/w\<close>, whose title is a no-break space, an
  ideographic space and a space, and whose \<open>h1\<close> headings are white space.
\<close>

lemma site_blank_page:
  "\<exists>s'. crawlPage site defaults ''http://a.test/w'' 1 (Some ''http://a.test/'') new_WebCrawler
     = (Inr (Some (leaf ''http://a.test/w'' 1 (Some ''http://a.test/''))), s')"
  by (simp add: unfold_all unfold_site)

theorem crawlPage_fallbacks_witness:
  "(\<exists>s'. crawlPage site defaults ''http://a.test/w'' 1 (Some ''http://a.test/'') new_WebCrawler
      = (Inr (Some (leaf ''http://a.test/w'' 1 (Some ''http://a.test/''))), s'))
   \<and> text_of (cheerio_load site (utf16 ''void'') ''title'') = [0x00A0, 0x3000, 0x0020]
   \<and> isWhiteSpace 0x00A0 \<and> isWhiteSpace 0x3000 \<and> isWhiteSpace 0x0020
   \<and> title (leaf ''http://a.test/w'' 1 (Some ''http://a.test/'')) = utf16 ''No title''
   \<and> map text_content (cheerio_load site (utf16 ''void'') ''h1'') = [[0xFEFF, 0x2003], [0x0020]]
   \<and> isWhiteSpace 0xFEFF \<and> isWhiteSpace 0x2003
   \<and> map_of (headings (leaf ''http://a.test/w'' 1 (Some ''http://a.test/''))) ''h1'' = Some []
   \<and> cheerio_load site (utf16 ''void'') ''h2'' = []
   \<and> map_of (headings (leaf ''http://a.test/w'' 1 (Some ''http://a.test/''))) ''h2'' = Some []"
proof -
  let ?r = "leaf ''http://a.test/w'' 1 (Some ''http://a.test/'')"
  from site_blank_page obtain s' where
    run: "crawlPage site defaults ''http://a.test/w'' 1 (Some ''http://a.test/'') new_WebCrawler
      = (Inr (Some ?r), s')" ..
  from crawlPage_fallbacks [OF run] obtain k resp where
    g: "httpGet site k ''http://a.test/w'' = Inr resp" and
    f: "(\<forall>c \<in> set (text_of (cheerio_load site (data resp) ''title'')). isWhiteSpace c)
          \<longrightarrow> title ?r = utf16 ''No title''" and
    h: "\<forall>tag \<in> set [''h1'', ''h2'', ''h3'', ''h4'', ''h5'', ''h6''].
          map_of (headings ?r) tag
            = Some (filter (\<lambda>t. t \<noteq> [])
                (map (\<lambda>el. trim (text_of [el])) (cheerio_load site (data resp) tag))) \<and>
          (cheerio_load site (data resp) tag = [] \<longrightarrow> map_of (headings ?r) tag = Some []) \<and>
          ((\<forall>el \<in> set (cheerio_load site (data resp) tag).
               \<forall>c \<in> set (text_content el). isWhiteSpace c) \<longrightarrow>
             map_of (headings ?r) tag = Some [])"
    unfolding Let_def by (elim exE conjE) (rule that)
  from g have resp: "data resp = utf16 ''void''"
    by (auto simp: site_def site_get_def html_def)
  have tt: "text_of (cheerio_load site (utf16 ''void'') ''title'') = [0x00A0, 0x3000, 0x0020]"
    by (simp add: site_def site_doc_def text_of_def utf16_def)
  have ws: "isWhiteSpace 0x00A0" "isWhiteSpace 0x3000" "isWhiteSpace 0x0020"
    "isWhiteSpace 0xFEFF" "isWhiteSpace 0x2003"
    by (simp_all add: isWhiteSpace_def)
  from f have "(\<forall>c \<in> set [0x00A0, 0x3000, 0x0020 :: code_unit]. isWhiteSpace c)
      \<longrightarrow> title ?r = utf16 ''No title''"
    unfolding resp tt .
  with ws have t: "title ?r = utf16 ''No title''"
    by simp
  have h1: "map text_content (cheerio_load site (utf16 ''void'') ''h1'') = [[0xFEFF, 0x2003], [0x0020]]"
    by (simp add: site_def site_doc_def utf16_def)
  have h2: "cheerio_load site (utf16 ''void'') ''h2'' = []"
    by (simp add: site_def site_doc_def utf16_def)
  have m1: "''h1'' \<in> set [''h1'', ''h2'', ''h3'', ''h4'', ''h5'', ''h6'']"
    and m2: "''h2'' \<in> set [''h1'', ''h2'', ''h3'', ''h4'', ''h5'', ''h6'']"
    by simp_all
  have blank: "\<forall>el \<in> set (cheerio_load site (utf16 ''void'') ''h1'').
      \<forall>c \<in> set (text_content el). isWhiteSpace c"
    using ws by (simp add: site_def site_doc_def utf16_def)
  from bspec [OF h m1]
  have "(\<forall>el \<in> set (cheerio_load site (utf16 ''void'') ''h1'').
               \<forall>c \<in> set (text_content el). isWhiteSpace c) \<longrightarrow>
             map_of (headings ?r) ''h1'' = Some []"
    unfolding resp by (elim conjE)
  with blank have hh1: "map_of (headings ?r) ''h1'' = Some []"
    by (rule rev_mp)
  from bspec [OF h m2]
  have "cheerio_load site (utf16 ''void'') ''h2'' = [] \<longrightarrow> map_of (headings ?r) ''h2'' = Some []"
    unfolding resp by (elim conjE)
  with h2 have hh2: "map_of (headings ?r) ''h2'' = Some []"
    by (rule rev_mp)
  from run have "\<exists>s'. crawlPage site defaults ''http://a.test/w'' 1 (Some ''http://a.test/'')
      new_WebCrawler = (Inr (Some ?r), s')" ..
  with tt ws t h1 hh1 h2 hh2 show ?thesis
    by (intro conjI)
qed

subsection \<open>The filter\<close>

lemma new_Set_acc:
  "distinct acc \<Longrightarrow> distinct (foldl set_add acc xs) \<and> set (foldl set_add acc xs) = set acc \<union> set xs"
  by (induction xs arbitrary: acc) (auto simp: set_add_def)

lemma distinct_new_Set: "distinct (new_Set xs)"
  using new_Set_acc [of "[]" xs] by (simp add: new_Set_def)

lemma set_new_Set: "set (new_Set xs) = set xs"
  using new_Set_acc [of "[]" xs] by (simp add: new_Set_def)

lemma some_pattern_False:
  "some_pattern w ps u = Inr False \<Longrightarrow> \<forall>pattern \<in> set ps. regExpTest w pattern u = Inr False"
  by (induction ps) (auto split: sum.splits if_splits)

lemma some_pattern_True:
  "some_pattern w ps u = Inr True \<Longrightarrow> \<exists>pattern \<in> set ps. regExpTest w pattern u = Inr True"
  by (induction ps) (auto split: sum.splits if_splits)

lemma keeps_True:
  assumes "keeps w opts baseUrlObj u = Inr True"
  shows "\<exists>urlObj. urlParse w u = Inr urlObj
    \<and> (protocol urlObj = ''http:'' \<or> protocol urlObj = ''https:'')
    \<and> (followExternalLinks opts \<or> hostname urlObj = hostname baseUrlObj)
    \<and> (allowedDomains opts = [] \<or> hostname urlObj \<in> set (allowedDomains opts))
    \<and> (\<forall>pattern \<in> set (excludePatterns opts). regExpTest w pattern u = Inr False)
    \<and> (includePatterns opts = []
        \<or> (\<exists>pattern \<in> set (includePatterns opts). regExpTest w pattern u = Inr True))"
proof -
  from assms obtain urlObj where p: "urlParse w u = Inr urlObj"
    by (auto simp: keeps_def split: sum.splits)
  from assms p have a: "protocol urlObj = ''http:'' \<or> protocol urlObj = ''https:''"
    and b: "followExternalLinks opts \<or> hostname urlObj = hostname baseUrlObj"
    and c: "allowedDomains opts = [] \<or> hostname urlObj \<in> set (allowedDomains opts)"
    and d: "some_pattern w (excludePatterns opts) u = Inr False"
    and e: "includePatterns opts = [] \<or> some_pattern w (includePatterns opts) u = Inr True"
    by (simp_all add: keeps_def split: sum.splits if_splits)
  from p a b c some_pattern_False [OF d] e show ?thesis
    using some_pattern_True [of w "includePatterns opts" u] by blast
qed

lemma filter_links_set:
  "filter_links w opts baseUrlObj ls acc = Inr fs \<Longrightarrow>
   set fs \<subseteq> set acc \<union> {u \<in> link_url ` set ls. keeps w opts baseUrlObj u = Inr True}"
proof (induction ls arbitrary: acc)
  case Nil
  then show ?case by simp
next
  case (Cons l ls)
  from Cons.prems obtain k where k: "keeps w opts baseUrlObj (link_url l) = Inr k"
    and rest: "filter_links w opts baseUrlObj ls (if k then acc @ [link_url l] else acc) = Inr fs"
    by (auto split: sum.splits)
  from Cons.IH [OF rest] k show ?case
    by (auto split: if_splits)
qed

text \<open>
  C5. The URLs that \<open>extractAndFilterUrls\<close> returns are distinct, and each of them is
  the URL of one of the links, has the protocol \<open>http:\<close> or \<open>https:\<close>, has the
  hostname of the base URL unless \<open>followExternalLinks\<close> is set, has a hostname among
  \<open>allowedDomains\<close> unless that list is empty, is matched by no pattern of
  \<open>excludePatterns\<close>, and is matched by a pattern of \<open>includePatterns\<close> unless that
  list is empty.
\<close>

theorem extractAndFilterUrls_sound:
  assumes "extractAndFilterUrls w opts ls baseUrl d = Inr urls"
  shows "distinct urls \<and>
    (\<exists>baseUrlObj. urlParse w baseUrl = Inr baseUrlObj \<and>
      (\<forall>u \<in> set urls. u \<in> link_url ` set ls \<and>
        (\<exists>urlObj. urlParse w u = Inr urlObj
          \<and> (protocol urlObj = ''http:'' \<or> protocol urlObj = ''https:'')
          \<and> (followExternalLinks opts \<or> hostname urlObj = hostname baseUrlObj)
          \<and> (allowedDomains opts = [] \<or> hostname urlObj \<in> set (allowedDomains opts))
          \<and> (\<forall>pattern \<in> set (excludePatterns opts). regExpTest w pattern u = Inr False)
          \<and> (includePatterns opts = []
              \<or> (\<exists>pattern \<in> set (includePatterns opts). regExpTest w pattern u = Inr True)))))"
proof -
  from assms obtain baseUrlObj fs where b: "urlParse w baseUrl = Inr baseUrlObj"
    and f: "filter_links w opts baseUrlObj ls [] = Inr fs" and u: "urls = new_Set fs"
    by (auto simp: extractAndFilterUrls_def split: sum.splits)
  have "distinct urls"
    by (simp add: u distinct_new_Set)
  moreover have "\<forall>x \<in> set urls. x \<in> link_url ` set ls \<and> keeps w opts baseUrlObj x = Inr True"
    using filter_links_set [OF f] by (auto simp: u set_new_Set)
  ultimately show ?thesis
    using b keeps_True [of w opts baseUrlObj] by blast
qed

subsection \<open>The robots check\<close>

lemma fetch_robots_failure:
  assumes "isl (httpGet w (length (trace s)) robotsUrl)
    \<or> (\<exists>resp. httpGet w (length (trace s)) robotsUrl = Inr resp
          \<and> isl (robotsParser w robotsUrl (data resp)))"
  shows "robotsCache (fetch_robots w robotsUrl s) robotsUrl = Some None"
  using assms
  by (auto simp: fetch_robots_def get_robots_def isl_def split: sum.splits)

lemma fetch_robots_cached:
  "\<exists>v. robotsCache (fetch_robots w robotsUrl s) robotsUrl = Some v"
  by (auto simp: fetch_robots_def get_robots_def split: sum.splits)

text \<open>
  C6. \<open>isAllowedByRobots\<close> always returns a value. The value is \<open>true\<close> when the URL
  does not parse; when the cache has no entry for the robots URL of the host and the
  request for it fails, or its parsing fails, and then \<open>null\<close> is cached for that robots
  URL; when \<open>null\<close> is cached already; and when \<open>isAllowed\<close> raises.
\<close>

theorem isAllowedByRobots_total:
  "\<exists>v s'. isAllowedByRobots w opts u s = (Inr v, s') \<and>
     (isl (urlParse w u) \<longrightarrow> v = Some True \<and> s' = s) \<and>
     (\<forall>urlObj robotsUrl. urlParse w u = Inr urlObj
         \<and> robotsUrl = protocol urlObj @ ''//'' @ host urlObj @ ''/robots.txt'' \<longrightarrow>
        (robotsCache s robotsUrl = None
           \<and> (isl (httpGet w (length (trace s)) robotsUrl)
              \<or> (\<exists>resp. httpGet w (length (trace s)) robotsUrl = Inr resp
                    \<and> isl (robotsParser w robotsUrl (data resp))))
           \<longrightarrow> v = Some True \<and> robotsCache s' robotsUrl = Some None) \<and>
        (robotsCache s robotsUrl = Some None \<longrightarrow> v = Some True \<and> s' = s) \<and>
        (\<forall>rb. robotsCache s' robotsUrl = Some (Some rb)
           \<and> isl (robotsIsAllowed w rb u (userAgent opts)) \<longrightarrow> v = Some True))"
proof (cases "urlParse w u")
  case (Inl e)
  then show ?thesis
    by (simp add: isAllowedByRobots_def isAllowedByRobots_try_def)
next
  case (Inr urlObj)
  define robotsUrl where "robotsUrl = protocol urlObj @ ''//'' @ host urlObj @ ''/robots.txt''"
  define s1 where
    "s1 = (if robotsUrl \<notin> dom (robotsCache s) then fetch_robots w robotsUrl s else s)"
  have body: "isAllowedByRobots_try w opts u s =
      (case robotsCache s1 robotsUrl of
         Some (Some rb) \<Rightarrow> (robotsIsAllowed w rb u (userAgent opts), s1)
       | _ \<Rightarrow> (Inr (Some True), s1))"
    unfolding robotsUrl_def s1_def isAllowedByRobots_try_def Inr Let_def by (simp only: sum.case)
  have "\<exists>v. isAllowedByRobots w opts u s = (Inr v, s1)"
    by (simp add: isAllowedByRobots_def body split: option.split sum.split)
  then obtain v where v: "isAllowedByRobots w opts u s = (Inr v, s1)" ..
  have failing: "robotsCache s robotsUrl = None
           \<and> (isl (httpGet w (length (trace s)) robotsUrl)
              \<or> (\<exists>resp. httpGet w (length (trace s)) robotsUrl = Inr resp
                    \<and> isl (robotsParser w robotsUrl (data resp))))
           \<longrightarrow> v = Some True \<and> robotsCache s1 robotsUrl = Some None"
  proof
    assume a: "robotsCache s robotsUrl = None
           \<and> (isl (httpGet w (length (trace s)) robotsUrl)
              \<or> (\<exists>resp. httpGet w (length (trace s)) robotsUrl = Inr resp
                    \<and> isl (robotsParser w robotsUrl (data resp))))"
    then have "s1 = fetch_robots w robotsUrl s"
      by (simp add: s1_def dom_def)
    with a fetch_robots_failure [of w s robotsUrl] have c: "robotsCache s1 robotsUrl = Some None"
      by simp
    with v show "v = Some True \<and> robotsCache s1 robotsUrl = Some None"
      by (simp add: isAllowedByRobots_def body)
  qed
  have sentinel: "robotsCache s robotsUrl = Some None \<longrightarrow> v = Some True \<and> s1 = s"
  proof
    assume a: "robotsCache s robotsUrl = Some None"
    then have "s1 = s"
      by (simp add: s1_def dom_def)
    with a v show "v = Some True \<and> s1 = s"
      by (simp add: isAllowedByRobots_def body)
  qed
  have raising: "\<forall>rb. robotsCache s1 robotsUrl = Some (Some rb)
           \<and> isl (robotsIsAllowed w rb u (userAgent opts)) \<longrightarrow> v = Some True"
    using v by (auto simp: isAllowedByRobots_def body isl_def)
  from v failing sentinel raising show ?thesis
    by (simp add: Inr robotsUrl_def)
qed

lemma site_filter:
  "extractAndFilterUrls site no_admin (links home) ''http://a.test/'' 1
     = Inr [''http://a.test/x'', ''http://a.test/y'', ''http://a.test/w'']"
  by (simp add: unfold_all unfold_site no_admin_def)

theorem extractAndFilterUrls_sound_witness:
  "extractAndFilterUrls site no_admin (links home) ''http://a.test/'' 1
     = Inr [''http://a.test/x'', ''http://a.test/y'', ''http://a.test/w'']
   \<and> distinct [''http://a.test/x'', ''http://a.test/y'', ''http://a.test/w'']
   \<and> ''http://b.test/'' \<in> link_url ` set (links home)
   \<and> ''http://a.test/admin/z'' \<in> link_url ` set (links home)
   \<and> ''mailto:me@a.test'' \<in> link_url ` set (links home)
   \<and> regExpTest site ''/admin'' ''http://a.test/admin/z'' = Inr True
   \<and> regExpTest site ''/admin'' ''http://a.test/x'' = Inr False"
proof -
  from extractAndFilterUrls_sound [OF site_filter]
  have "distinct [''http://a.test/x'', ''http://a.test/y'', ''http://a.test/w'']"
    by (rule conjunct1)
  moreover have "''http://b.test/'' \<in> link_url ` set (links home)"
    "''http://a.test/admin/z'' \<in> link_url ` set (links home)"
    "''mailto:me@a.test'' \<in> link_url ` set (links home)"
    by (simp_all add: home_def)
  moreover have "regExpTest site ''/admin'' ''http://a.test/admin/z'' = Inr True"
    "regExpTest site ''/admin'' ''http://a.test/x'' = Inr False"
    by (simp_all add: site_def)
  ultimately show ?thesis
    using site_filter by (intro conjI)
qed

lemma site_robots:
  "\<exists>s'. isAllowedByRobots site defaults ''http://a.test/x'' new_WebCrawler = (Inr (Some True), s')"
  by (simp add: unfold_all unfold_site)

theorem isAllowedByRobots_total_witness:
  "robotsCache new_WebCrawler ''http://a.test/robots.txt'' = None
   \<and> isl (httpGet site (length (trace new_WebCrawler)) ''http://a.test/robots.txt'')
   \<and> (\<exists>s'. isAllowedByRobots site defaults ''http://a.test/x'' new_WebCrawler
              = (Inr (Some True), s')
          \<and> robotsCache s' ''http://a.test/robots.txt'' = Some None)"
proof -
  let ?R = "''http://a.test/robots.txt''"
  have p: "urlParse site ''http://a.test/x'' = Inr a_test"
    by (simp add: site_def site_parse_def)
  have r: "?R = protocol a_test @ ''//'' @ host a_test @ ''/robots.txt''"
    by (simp add: a_test_def)
  have c: "robotsCache new_WebCrawler ?R = None"
    by (simp add: new_WebCrawler_def)
  have g: "isl (httpGet site (length (trace new_WebCrawler)) ?R)"
    by (simp add: site_def site_get_def)
  from isAllowedByRobots_total [of site defaults "''http://a.test/x''" new_WebCrawler]
  obtain v s' where
    run: "isAllowedByRobots site defaults ''http://a.test/x'' new_WebCrawler = (Inr v, s')" and
    all: "\<forall>urlObj robotsUrl. urlParse site ''http://a.test/x'' = Inr urlObj
         \<and> robotsUrl = protocol urlObj @ ''//'' @ host urlObj @ ''/robots.txt'' \<longrightarrow>
        (robotsCache new_WebCrawler robotsUrl = None
           \<and> (isl (httpGet site (length (trace new_WebCrawler)) robotsUrl)
              \<or> (\<exists>resp. httpGet site (length (trace new_WebCrawler)) robotsUrl = Inr resp
                    \<and> isl (robotsParser site robotsUrl (data resp))))
           \<longrightarrow> v = Some True \<and> robotsCache s' robotsUrl = Some None) \<and>
        (robotsCache new_WebCrawler robotsUrl = Some None \<longrightarrow> v = Some True \<and> s' = new_WebCrawler) \<and>
        (\<forall>rb. robotsCache s' robotsUrl = Some (Some rb)
           \<and> isl (robotsIsAllowed site rb ''http://a.test/x'' (userAgent defaults)) \<longrightarrow> v = Some True)"
    by (elim exE conjE) (rule that)
  note i1 = spec [OF all, of a_test]
  note i2 = spec [OF i1, of ?R]
  note i3 = mp [OF i2 conjI [OF p r]]
  note i4 = mp [OF conjunct1 [OF i3] conjI [OF c disjI1 [OF g]]]
  from i4 have "v = Some True \<and> robotsCache s' ?R = Some None" .
  with run have "\<exists>s'. isAllowedByRobots site defaults ''http://a.test/x'' new_WebCrawler
              = (Inr (Some True), s') \<and> robotsCache s' ?R = Some None"
    by (intro exI [of _ s']) simp
  with c g show ?thesis
    by (intro conjI)
qed

subsection \<open>The retry loop\<close>

lemma crawlPage_try_failure:
  assumes "httpGet w (length (trace s)) u = Inl e"
  shows "crawlPage_try w u d p st s = (Inl e, record_effect (Get_page u) s)"
  using assms by (simp add: crawlPage_try_def get_page_def)

lemma upto_first: "i \<le> j \<Longrightarrow> [i..j] = i # [i + 1..j]"
  by (simp add: upto_rec1)

lemma crawlPage_loop_failing:
  assumes fails: "\<forall>n. isl (httpGet w n u)"
  shows "retries \<le> maxRetries opts \<Longrightarrow>
    \<exists>e s'. crawlPage_loop w opts u d p st retries s = (Inl e, s')
      \<and> trace s' = trace s
          @ concat (map (\<lambda>k. [Get_page u, Sleep (1000 * k)]) [retries + 1..maxRetries opts])
          @ [Get_page u]
      \<and> httpGet w (length (trace s') - 1) u = Inl e
      \<and> visitedUrls s' = visitedUrls s \<and> failedUrls s' = failedUrls s
      \<and> results s' = results s \<and> robotsCache s' = robotsCache s"
proof (induction "nat (maxRetries opts - retries)" arbitrary: retries s)
  case 0
  then have eq: "retries = maxRetries opts"
    by simp
  from fails obtain e where e: "httpGet w (length (trace s)) u = Inl e"
    by (auto simp: isl_def)
  have "crawlPage_loop w opts u d p st retries s = (Inl e, record_effect (Get_page u) s)"
    by (subst crawlPage_loop.simps) (simp add: crawlPage_try_failure [OF e] eq)
  with e show ?case
    by (simp add: eq)
next
  case (Suc n)
  then have lt: "retries < maxRetries opts" and n: "n = nat (maxRetries opts - (retries + 1))"
    by simp_all
  from fails obtain e where e: "httpGet w (length (trace s)) u = Inl e"
    by (auto simp: isl_def)
  let ?s1 = "sleep (1000 * (retries + 1)) (record_effect (Get_page u) s)"
  have step: "crawlPage_loop w opts u d p st retries s
      = crawlPage_loop w opts u d p st (retries + 1) ?s1"
    using lt by (subst crawlPage_loop.simps) (simp add: crawlPage_try_failure [OF e])
  from lt have "retries + 1 \<le> maxRetries opts"
    by simp
  from Suc.hyps(1) [OF n this, of ?s1] obtain e' s' where
    run: "crawlPage_loop w opts u d p st (retries + 1) ?s1 = (Inl e', s')" and
    tr: "trace s' = trace ?s1
          @ concat (map (\<lambda>k. [Get_page u, Sleep (1000 * k)]) [retries + 1 + 1..maxRetries opts])
          @ [Get_page u]" and
    rest: "httpGet w (length (trace s') - 1) u = Inl e'"
      "visitedUrls s' = visitedUrls ?s1" "failedUrls s' = failedUrls ?s1"
      "results s' = results ?s1" "robotsCache s' = robotsCache ?s1"
    by blast
  from lt have "[retries + 1..maxRetries opts] = (retries + 1) # [retries + 1 + 1..maxRetries opts]"
    by (intro upto_first) simp
  with tr have "trace s' = trace s
          @ concat (map (\<lambda>k. [Get_page u, Sleep (1000 * k)]) [retries + 1..maxRetries opts])
          @ [Get_page u]"
    by simp
  with run rest step show ?case
    by simp
qed

lemma isAllowedByRobots_frame:
  assumes "isAllowedByRobots w opts u s = (r, s')"
  shows "visitedUrls s' = visitedUrls s \<and> failedUrls s' = failedUrls s \<and> results s' = results s
    \<and> (\<exists>es. trace s' = trace s @ es \<and> set es \<subseteq> range Get_robots)"
proof -
  have f: "\<And>k. visitedUrls (fetch_robots w k s) = visitedUrls s
      \<and> failedUrls (fetch_robots w k s) = failedUrls s \<and> results (fetch_robots w k s) = results s
      \<and> trace (fetch_robots w k s) = trace s @ [Get_robots k]"
    by (simp add: fetch_robots_def get_robots_def split: sum.split)
  from assms have "s' = s \<or> (\<exists>k. s' = fetch_robots w k s)"
    by (auto simp: isAllowedByRobots_def isAllowedByRobots_try_def Let_def
        split: sum.splits prod.splits option.splits if_splits)
  then show ?thesis
  proof
    assume "s' = s"
    then show ?thesis by simp
  next
    assume "\<exists>k. s' = fetch_robots w k s"
    then obtain k where "s' = fetch_robots w k s" ..
    with f [of k] show ?thesis by auto
  qed
qed

text \<open>
  C2. Let every request for the URL fail, let \<open>maxRetries\<close> be at least 0, and let the
  call reach the retry loop: the URL is not visited yet, and the robots check, when it
  is on, answers \<open>true\<close>. Then \<open>crawlPage\<close> raises the error of its last request, and
  its page requests and sleeps are, in order, a request followed by a sleep of
  \<open>1000 * k\<close> for \<open>k = 1, ..., maxRetries\<close>, and a last request: \<open>maxRetries + 1\<close>
  requests in all.
\<close>

theorem crawlPage_retries:
  assumes "\<forall>n. isl (httpGet w n u)"
    and "0 \<le> maxRetries opts"
    and "u \<notin> visitedUrls s"
    and "respectRobotsTxt opts \<longrightarrow> fst (isAllowedByRobots w opts u (visit u s)) = Inr (Some True)"
  shows "\<exists>e s'. crawlPage w opts u d p s = (Inl e, s')
    \<and> httpGet w (length (trace s') - 1) u = Inl e
    \<and> filter (\<lambda>x. case x of Get_page v \<Rightarrow> True | Sleep ms \<Rightarrow> True | _ \<Rightarrow> False)
         (drop (length (trace s)) (trace s'))
       = concat (map (\<lambda>k. [Get_page u, Sleep (1000 * k)]) [1..maxRetries opts]) @ [Get_page u]
    \<and> length (filter (\<lambda>x. x = Get_page u) (drop (length (trace s)) (trace s')))
       = nat (maxRetries opts + 1)"
proof -
  let ?pg = "\<lambda>x. case x of Get_page v \<Rightarrow> True | Sleep ms \<Rightarrow> True | _ \<Rightarrow> False"
  let ?sched = "concat (map (\<lambda>k. [Get_page u, Sleep (1000 * k)]) [1..maxRetries opts]) @ [Get_page u]"
  define s2 where
    "s2 = (if respectRobotsTxt opts then snd (isAllowedByRobots w opts u (visit u s)) else visit u s)"
  have fetch: "crawlPage w opts u d p s = crawlPage_fetch w opts u d p s2"
    using assms(3,4) by (auto simp: crawlPage_def Let_def s2_def split: prod.splits sum.splits)
  have "\<exists>es. trace s2 = trace s @ VisitedAdd u # es \<and> set es \<subseteq> range Get_robots"
  proof (cases "respectRobotsTxt opts")
    case True
    then have "isAllowedByRobots w opts u (visit u s)
        = (fst (isAllowedByRobots w opts u (visit u s)), s2)"
      by (simp add: s2_def)
    from isAllowedByRobots_frame [OF this] show ?thesis
      by auto
  next
    case False
    then show ?thesis
      by (simp add: s2_def)
  qed
  then obtain es where es: "trace s2 = trace s @ VisitedAdd u # es" "set es \<subseteq> range Get_robots"
    by blast
  from crawlPage_loop_failing [OF assms(1), of 0 opts d p "dateNow w (length (trace s2))"
      "record_effect DateNow s2"] assms(2)
  obtain e s' where
    run: "crawlPage_loop w opts u d p (dateNow w (length (trace s2))) 0 (record_effect DateNow s2)
      = (Inl e, s')" and
    tr: "trace s' = trace s2 @ DateNow # ?sched" and
    err: "httpGet w (length (trace s') - 1) u = Inl e"
    by auto
  have c: "crawlPage w opts u d p s = (Inl e, s')"
    by (simp add: fetch crawlPage_fetch_def Date_now_def run)
  have new: "drop (length (trace s)) (trace s') = VisitedAdd u # es @ DateNow # ?sched"
    by (simp add: tr es)
  have no: "filter ?pg es = []" "filter (\<lambda>x. x = Get_page u) es = []"
    using es(2) by (auto simp: filter_empty_conv)
  have all: "filter ?pg ?sched = ?sched"
    by (simp add: filter_concat comp_def)
  have cnt: "length (filter (\<lambda>x. x = Get_page u) ?sched) = nat (maxRetries opts + 1)"
    using assms(2) by (simp add: filter_concat comp_def length_concat sum_list_triv)
  from c err new no all cnt show ?thesis
    by simp
qed

theorem crawlPage_retries_witness:
  "(\<forall>n. isl (httpGet site n ''http://a.test/admin/z''))
   \<and> 0 \<le> maxRetries defaults
   \<and> ''http://a.test/admin/z'' \<notin> visitedUrls new_WebCrawler
   \<and> fst (isAllowedByRobots site defaults ''http://a.test/admin/z''
            (visit ''http://a.test/admin/z'' new_WebCrawler)) = Inr (Some True)
   \<and> (\<exists>s'. crawlPage site defaults ''http://a.test/admin/z'' 1 (Some ''http://a.test/'')
               new_WebCrawler = (Inl (Error ''ECONNREFUSED''), s')
         \<and> filter (\<lambda>x. case x of Get_page v \<Rightarrow> True | Sleep ms \<Rightarrow> True | _ \<Rightarrow> False)
              (drop (length (trace new_WebCrawler)) (trace s'))
            = [Get_page ''http://a.test/admin/z'', Sleep 1000,
               Get_page ''http://a.test/admin/z'', Sleep 2000,
               Get_page ''http://a.test/admin/z'', Sleep 3000,
               Get_page ''http://a.test/admin/z'']
         \<and> length (filter (\<lambda>x. x = Get_page ''http://a.test/admin/z'')
              (drop (length (trace new_WebCrawler)) (trace s'))) = 4)"
proof -
  let ?z = "''http://a.test/admin/z''"
  have h1: "\<forall>n. isl (httpGet site n ?z)"
    by (simp add: site_def site_get_def)
  have h2: "0 \<le> maxRetries defaults"
    by (simp add: defaults_def)
  have h3: "?z \<notin> visitedUrls new_WebCrawler"
    by (simp add: new_WebCrawler_def)
  have h4: "fst (isAllowedByRobots site defaults ?z (visit ?z new_WebCrawler)) = Inr (Some True)"
    by (simp add: unfold_all unfold_site)
  then have h4': "respectRobotsTxt defaults \<longrightarrow>
      fst (isAllowedByRobots site defaults ?z (visit ?z new_WebCrawler)) = Inr (Some True)"
    by (rule impI)
  have m: "[1..maxRetries defaults] = [1, 2, 3]"
    by (simp add: defaults_def upto_rec1)
  from crawlPage_retries [OF h1 h2 h3 h4', of 1 "Some ''http://a.test/''"]
  obtain e s' where
    run: "crawlPage site defaults ?z 1 (Some ''http://a.test/'') new_WebCrawler = (Inl e, s')" and
    err: "httpGet site (length (trace s') - 1) ?z = Inl e" and
    sched: "filter (\<lambda>x. case x of Get_page v \<Rightarrow> True | Sleep ms \<Rightarrow> True | _ \<Rightarrow> False)
         (drop (length (trace new_WebCrawler)) (trace s'))
       = concat (map (\<lambda>k. [Get_page ?z, Sleep (1000 * k)]) [1..maxRetries defaults]) @ [Get_page ?z]" and
    cnt: "length (filter (\<lambda>x. x = Get_page ?z) (drop (length (trace new_WebCrawler)) (trace s')))
       = nat (maxRetries defaults + 1)"
    by (elim exE conjE) (rule that)
  from err have e: "e = Error ''ECONNREFUSED''"
    by (simp add: site_def site_get_def)
  from sched have sched': "filter (\<lambda>x. case x of Get_page v \<Rightarrow> True | Sleep ms \<Rightarrow> True | _ \<Rightarrow> False)
         (drop (length (trace new_WebCrawler)) (trace s'))
       = [Get_page ?z, Sleep 1000, Get_page ?z, Sleep 2000, Get_page ?z, Sleep 3000, Get_page ?z]"
    unfolding m by simp
  from cnt have cnt': "length (filter (\<lambda>x. x = Get_page ?z)
      (drop (length (trace new_WebCrawler)) (trace s'))) = 4"
    by (simp add: defaults_def)
  from run e sched' cnt' have "\<exists>s'. crawlPage site defaults ?z 1 (Some ''http://a.test/'')
               new_WebCrawler = (Inl (Error ''ECONNREFUSED''), s')
         \<and> filter (\<lambda>x. case x of Get_page v \<Rightarrow> True | Sleep ms \<Rightarrow> True | _ \<Rightarrow> False)
              (drop (length (trace new_WebCrawler)) (trace s'))
            = [Get_page ?z, Sleep 1000, Get_page ?z, Sleep 2000, Get_page ?z, Sleep 3000, Get_page ?z]
         \<and> length (filter (\<lambda>x. x = Get_page ?z)
              (drop (length (trace new_WebCrawler)) (trace s'))) = 4"
    by (intro exI [of _ s'] conjI) simp_all
  with h1 h2 h3 h4 show ?thesis
    by (intro conjI)
qed

subsection \<open>What a call of \<open>crawlPage\<close> changes\<close>

lemma crawlPage_try_frame:
  assumes "crawlPage_try w u d p st s = (r, s')"
  shows "visitedUrls s' = visitedUrls s \<and> failedUrls s' = failedUrls s
    \<and> results s' = results s \<and> robotsCache s' = robotsCache s
    \<and> (\<exists>es. trace s' = trace s @ Get_page u # es \<and> set es \<subseteq> {DateNow})"
  using assms
  by (auto simp: crawlPage_try_def get_page_def Date_now_def Let_def
      split: prod.splits sum.splits if_splits)

lemma crawlPage_loop_frame:
  "crawlPage_loop w opts u d p st n s = (r, s') \<Longrightarrow>
   visitedUrls s' = visitedUrls s \<and> failedUrls s' = failedUrls s
    \<and> results s' = results s \<and> robotsCache s' = robotsCache s
    \<and> (\<exists>es. trace s' = trace s @ es \<and> set es \<subseteq> {Get_page u, DateNow} \<union> range Sleep)"
proof (induction w opts u d p st n s rule: crawlPage_loop.induct)
  case (1 w opts u d p startTime retries s)
  show ?case
  proof (cases "retries \<le> maxRetries opts")
    case False
    with "1.prems" show ?thesis
      by (subst (asm) crawlPage_loop.simps) simp
  next
    case True
    obtain a s1 where t: "crawlPage_try w u d p startTime s = (a, s1)"
      by (cases "crawlPage_try w u d p startTime s")
    from crawlPage_try_frame [OF t] obtain es1 where
      f1: "visitedUrls s1 = visitedUrls s" "failedUrls s1 = failedUrls s"
        "results s1 = results s" "robotsCache s1 = robotsCache s"
        "trace s1 = trace s @ Get_page u # es1" "set es1 \<subseteq> {DateNow}"
      by blast
    show ?thesis
    proof (cases "\<exists>e. a = Inl e \<and> \<not> retries + 1 > maxRetries opts")
      case False
      with "1.prems" True t have "s' = s1"
        by (subst (asm) crawlPage_loop.simps) (auto split: sum.splits if_splits)
      with f1 show ?thesis
        by auto
    next
      case True
      then obtain e where e: "a = Inl e" "\<not> retries + 1 > maxRetries opts"
        by blast
      let ?s2 = "sleep (1000 * (retries + 1)) s1"
      from "1.prems" \<open>retries \<le> maxRetries opts\<close> t e
      have "crawlPage_loop w opts u d p startTime (retries + 1) ?s2 = (r, s')"
        by (subst (asm) crawlPage_loop.simps) simp
      from "1.IH" [OF \<open>retries \<le> maxRetries opts\<close> t [symmetric] e(1) e(2) this]
      obtain es2 where
        f2: "visitedUrls s' = visitedUrls ?s2" "failedUrls s' = failedUrls ?s2"
          "results s' = results ?s2" "robotsCache s' = robotsCache ?s2"
          "trace s' = trace ?s2 @ es2" "set es2 \<subseteq> {Get_page u, DateNow} \<union> range Sleep"
        by blast
      have "trace s' = trace s @ (Get_page u # es1 @ Sleep (1000 * (retries + 1)) # es2)"
        by (simp add: f2 f1)
      moreover have "set (Get_page u # es1 @ Sleep (1000 * (retries + 1)) # es2)
          \<subseteq> {Get_page u, DateNow} \<union> range Sleep"
        using f1(6) f2(6) by auto
      ultimately show ?thesis
        using f1 f2 by (intro conjI exI [of _ "Get_page u # es1 @ Sleep (1000 * (retries + 1)) # es2"]) simp_all
    qed
  qed
qed

lemma fetch_robots_frame:
  "visitedUrls (fetch_robots w k s) = visitedUrls s \<and> failedUrls (fetch_robots w k s) = failedUrls s
    \<and> results (fetch_robots w k s) = results s \<and> trace (fetch_robots w k s) = trace s @ [Get_robots k]
    \<and> (\<exists>v. robotsCache (fetch_robots w k s) = (robotsCache s)(k \<mapsto> v))"
  by (auto simp: fetch_robots_def get_robots_def split: sum.split)

lemma isAllowedByRobots_cache:
  assumes "isAllowedByRobots w opts u s = (r, s')"
  shows "robotsCache s \<subseteq>\<^sub>m robotsCache s'"
proof -
  from assms have "s' = s \<or> (\<exists>k. k \<notin> dom (robotsCache s) \<and> s' = fetch_robots w k s)"
    by (auto simp: isAllowedByRobots_def isAllowedByRobots_try_def Let_def
        split: sum.splits prod.splits option.splits if_splits)
  then show ?thesis
  proof
    assume "s' = s"
    then show ?thesis by simp
  next
    assume "\<exists>k. k \<notin> dom (robotsCache s) \<and> s' = fetch_robots w k s"
    then obtain k where k: "k \<notin> dom (robotsCache s)" "s' = fetch_robots w k s"
      by blast
    from fetch_robots_frame [of w k s] obtain v where
      "robotsCache (fetch_robots w k s) = (robotsCache s)(k \<mapsto> v)"
      by blast
    with k show ?thesis
      by (simp add: map_le_def)
  qed
qed

text \<open>The whole effect of a call of \<open>crawlPage\<close>.\<close>

lemma crawlPage_effect:
  assumes "crawlPage w opts u d p s = (r, s')"
  shows "results s' = results s \<and> failedUrls s' = failedUrls s
    \<and> robotsCache s \<subseteq>\<^sub>m robotsCache s'
    \<and> (if u \<in> visitedUrls s then s' = s \<and> r = Inr None
        else visitedUrls s' = insert u (visitedUrls s)
          \<and> (\<exists>es. trace s' = trace s @ VisitedAdd u # es
                \<and> set es \<subseteq> {Get_page u, DateNow} \<union> range Get_robots \<union> range Sleep))"
proof (cases "u \<in> visitedUrls s")
  case True
  with assms show ?thesis
    by (simp add: crawlPage_def)
next
  case False
  define s2 where
    "s2 = (if respectRobotsTxt opts then snd (isAllowedByRobots w opts u (visit u s)) else visit u s)"
  have rb: "visitedUrls s2 = insert u (visitedUrls s) \<and> failedUrls s2 = failedUrls s
    \<and> results s2 = results s \<and> robotsCache s \<subseteq>\<^sub>m robotsCache s2
    \<and> (\<exists>es. trace s2 = trace s @ VisitedAdd u # es \<and> set es \<subseteq> range Get_robots)"
  proof (cases "respectRobotsTxt opts")
    case True
    then have eq: "isAllowedByRobots w opts u (visit u s)
        = (fst (isAllowedByRobots w opts u (visit u s)), s2)"
      by (simp add: s2_def)
    from isAllowedByRobots_frame [OF eq] isAllowedByRobots_cache [OF eq] show ?thesis
      by auto
  next
    case False
    then show ?thesis
      by (simp add: s2_def)
  qed
  then obtain es1 where es1: "trace s2 = trace s @ VisitedAdd u # es1" "set es1 \<subseteq> range Get_robots"
    by blast
  from assms False have "s' = s2 \<or> (\<exists>st. crawlPage_loop w opts u d p st 0 (record_effect DateNow s2) = (r, s'))"
    by (auto simp: crawlPage_def crawlPage_fetch_def Date_now_def Let_def s2_def
        split: prod.splits sum.splits if_splits)
  then show ?thesis
  proof
    assume "s' = s2"
    with rb False show ?thesis
      by auto
  next
    assume "\<exists>st. crawlPage_loop w opts u d p st 0 (record_effect DateNow s2) = (r, s')"
    then obtain st where "crawlPage_loop w opts u d p st 0 (record_effect DateNow s2) = (r, s')" ..
    from crawlPage_loop_frame [OF this] obtain es2 where
      f: "visitedUrls s' = visitedUrls s2" "failedUrls s' = failedUrls s2"
        "results s' = results s2" "robotsCache s' = robotsCache s2"
        "trace s' = trace s2 @ DateNow # es2" "set es2 \<subseteq> {Get_page u, DateNow} \<union> range Sleep"
      by auto
    have "trace s' = trace s @ VisitedAdd u # (es1 @ DateNow # es2)"
      by (simp add: f es1)
    moreover have "set (es1 @ DateNow # es2) \<subseteq> {Get_page u, DateNow} \<union> range Get_robots \<union> range Sleep"
      using es1(2) f(6) by auto
    ultimately have "\<exists>es. trace s' = trace s @ VisitedAdd u # es
                \<and> set es \<subseteq> {Get_page u, DateNow} \<union> range Get_robots \<union> range Sleep"
      by blast
    with rb f False show ?thesis
      by simp
  qed
qed

lemma crawlPage_depth:
  assumes "crawlPage w opts u d p s = (Inr (Some r), s')"
  shows "depth r = d \<and> originalUrl r = u \<and> parent r = p"
  using crawlPage_page [OF assms] by (auto simp: page_info_def Let_def)

subsection \<open>The calls of a batch\<close>

lemma page_settle_frame:
  assumes "page_settle w u d p st r s = (v, s')"
  shows "visitedUrls s' = visitedUrls s \<and> failedUrls s' = failedUrls s
    \<and> results s' = results s \<and> robotsCache s' = robotsCache s
    \<and> (\<exists>es. trace s' = trace s @ es \<and> set es \<subseteq> {DateNow})"
  using assms
  by (auto simp: page_settle_def Date_now_def Let_def split: prod.splits sum.splits if_splits)

lemma request_page_frame:
  assumes "request_page w opts u st n s = (c, s')"
  shows "visitedUrls s' = visitedUrls s \<and> failedUrls s' = failedUrls s
    \<and> results s' = results s \<and> robotsCache s' = robotsCache s
    \<and> (\<exists>es. trace s' = trace s @ es \<and> set es \<subseteq> {Get_page u})
    \<and> ((\<exists>r. c = Await_page st n r) \<or> c = Settled (Inr None))"
  using assms
  by (auto simp: request_page_def get_page_def split: prod.splits if_splits)

lemma enter_loop_frame:
  assumes "enter_loop w opts u s = (c, s')"
  shows "visitedUrls s' = visitedUrls s \<and> failedUrls s' = failedUrls s
    \<and> results s' = results s \<and> robotsCache s' = robotsCache s
    \<and> (\<exists>es. trace s' = trace s @ es \<and> set es \<subseteq> {Get_page u, DateNow})
    \<and> ((\<exists>st r. c = Await_page st 0 r) \<or> c = Settled (Inr None))"
proof -
  from assms obtain st where
    r: "request_page w opts u st 0 (record_effect DateNow s) = (c, s')"
    by (auto simp: enter_loop_def Date_now_def)
  from request_page_frame [OF r] obtain es where
    f: "visitedUrls s' = visitedUrls s" "failedUrls s' = failedUrls s"
      "results s' = results s" "robotsCache s' = robotsCache s"
      "trace s' = trace s @ DateNow # es" "set es \<subseteq> {Get_page u}"
      "(\<exists>r. c = Await_page st 0 r) \<or> c = Settled (Inr None)"
    by auto
  from f(6) have "set (DateNow # es) \<subseteq> {Get_page u, DateNow}"
    by auto
  with f(5) have "\<exists>es. trace s' = trace s @ es \<and> set es \<subseteq> {Get_page u, DateNow}"
    by blast
  with f show ?thesis
    by blast
qed

lemma robots_store_fields [simp]:
  "visitedUrls (robots_store w R r s) = visitedUrls s"
  "failedUrls (robots_store w R r s) = failedUrls s"
  "results (robots_store w R r s) = results s"
  "trace (robots_store w R r s) = trace s"
  by (simp_all add: robots_store_def split: sum.splits)

lemma robots_store_cache: "\<exists>v. robotsCache (robots_store w R r s) = (robotsCache s)(R \<mapsto> v)"
  by (auto simp: robots_store_def split: sum.splits)

text \<open>What one step of a call changes.\<close>

lemma call_step_start_visited:
  "item_url it \<in> visitedUrls s \<Longrightarrow> call_step w opts it Start s = (Settled (Inr None), s)"
  by simp

lemma call_step_start:
  assumes "call_step w opts it Start s = (c', s')" and "item_url it \<notin> visitedUrls s"
  shows "visitedUrls s' = insert (item_url it) (visitedUrls s) \<and> failedUrls s' = failedUrls s
    \<and> results s' = results s \<and> robotsCache s' = robotsCache s
    \<and> (\<exists>es. trace s' = trace s @ VisitedAdd (item_url it) # es
          \<and> set es \<subseteq> {Get_page (item_url it), DateNow} \<union> range Get_robots)
    \<and> c' \<noteq> Start
    \<and> (\<forall>R r. c' = Await_robots R r \<longrightarrow> R \<notin> dom (robotsCache s))"
proof (cases "respectRobotsTxt opts")
  case True
  with assms show ?thesis
    by (auto simp: Let_def get_robots_def split: sum.splits if_splits prod.splits)
next
  case False
  with assms have e: "enter_loop w opts (item_url it) (visit (item_url it) s) = (c', s')"
    by (simp add: Let_def)
  from enter_loop_frame [OF e] obtain es where
    f: "visitedUrls s' = insert (item_url it) (visitedUrls s)" "failedUrls s' = failedUrls s"
      "results s' = results s" "robotsCache s' = robotsCache s"
      "trace s' = trace s @ VisitedAdd (item_url it) # es" "set es \<subseteq> {Get_page (item_url it), DateNow}"
      "(\<exists>st r. c' = Await_page st 0 r) \<or> c' = Settled (Inr None)"
    by auto
  from f(6) have "set es \<subseteq> {Get_page (item_url it), DateNow} \<union> range Get_robots"
    by auto
  with f(5) have "\<exists>es. trace s' = trace s @ VisitedAdd (item_url it) # es
          \<and> set es \<subseteq> {Get_page (item_url it), DateNow} \<union> range Get_robots"
    by blast
  with f show ?thesis
    by auto
qed

lemma call_step_resumed:
  assumes "call_step w opts it c s = (c', s')" and "c \<noteq> Start"
  shows "visitedUrls s' = visitedUrls s \<and> failedUrls s' = failedUrls s
    \<and> results s' = results s
    \<and> (\<exists>es. trace s' = trace s @ es \<and> set es \<subseteq> {Get_page (item_url it), DateNow} \<union> range Sleep)
    \<and> c' \<noteq> Start
    \<and> (\<forall>R r. c' \<noteq> Await_robots R r)
    \<and> (case c of Await_robots R r \<Rightarrow> \<exists>v. robotsCache s' = (robotsCache s)(R \<mapsto> v)
        | _ \<Rightarrow> robotsCache s' = robotsCache s)"
proof (cases c)
  case Start
  with assms show ?thesis
    by simp
next
  case (Await_robots R r)
  with assms robots_store_cache [of w R r s] show ?thesis
    by (auto simp: Let_def)
next
  case (Await_allowed v)
  show ?thesis
  proof (cases "v = Some True")
    case True
    with assms Await_allowed have "enter_loop w opts (item_url it) s = (c', s')"
      by simp
    from enter_loop_frame [OF this] Await_allowed show ?thesis
      by auto
  next
    case False
    with assms Await_allowed show ?thesis
      by auto
  qed
next
  case (Await_page st n r)
  obtain v s1 where p: "page_settle w (item_url it) (item_depth it) (item_parent it) st r s = (v, s1)"
    by (cases "page_settle w (item_url it) (item_depth it) (item_parent it) st r s")
  from page_settle_frame [OF p] obtain es where
    f: "visitedUrls s1 = visitedUrls s" "failedUrls s1 = failedUrls s"
      "results s1 = results s" "robotsCache s1 = robotsCache s"
      "trace s1 = trace s @ es" "set es \<subseteq> {DateNow}"
    by auto
  from assms Await_page p have
    "(s' = s1 \<or> s' = sleep (1000 * (n + 1)) s1) \<and> c' \<noteq> Start \<and> (\<forall>R r. c' \<noteq> Await_robots R r)"
    by (auto split: sum.splits if_splits)
  then show ?thesis
  proof (elim conjE disjE)
    assume "s' = s1" "c' \<noteq> Start" "\<forall>R r. c' \<noteq> Await_robots R r"
    moreover from f(5,6) have "\<exists>es. trace s1 = trace s @ es
        \<and> set es \<subseteq> {Get_page (item_url it), DateNow} \<union> range Sleep"
      by (intro exI [of _ es]) auto
    ultimately show ?thesis
      using f Await_page by simp
  next
    assume "s' = sleep (1000 * (n + 1)) s1" "c' \<noteq> Start" "\<forall>R r. c' \<noteq> Await_robots R r"
    moreover from f(5,6) have "\<exists>es'. trace (sleep (1000 * (n + 1)) s1) = trace s @ es'
        \<and> set es' \<subseteq> {Get_page (item_url it), DateNow} \<union> range Sleep"
      by (intro exI [of _ "es @ [Sleep (1000 * (n + 1))]"]) auto
    ultimately show ?thesis
      using f Await_page by simp
  qed
next
  case (Await_sleep st n)
  with assms have "request_page w opts (item_url it) st n s = (c', s')"
    by simp
  from request_page_frame [OF this] Await_sleep show ?thesis
    by auto
next
  case (Settled r)
  with assms show ?thesis
    by auto
qed

lemma resume_step:
  "n < length (filter (\<lambda>t. pending (snd t)) calls) \<Longrightarrow> resume w opts n calls s = (calls', s') \<Longrightarrow>
   \<exists>pre it c post c'. calls = pre @ (it, c) # post \<and> pending c
     \<and> call_step w opts it c s = (c', s') \<and> calls' = pre @ (it, c') # post"
proof (induction calls arbitrary: n calls')
  case Nil
  then show ?case
    by simp
next
  case (Cons a calls)
  obtain it c where a: "a = (it, c)"
    by (cases a)
  have later: "\<exists>pre it c post c'. a # calls = pre @ (it, c) # post \<and> pending c
     \<and> call_step w opts it c s = (c', s') \<and> calls' = pre @ (it, c') # post"
    if m: "m < length (filter (\<lambda>t. pending (snd t)) calls)"
      and r: "resume w opts m calls s = (cs1, s')" and c: "calls' = a # cs1" for m cs1
  proof -
    from Cons.IH [OF m r] obtain pre it1 c1 post c1' where
      d: "calls = pre @ (it1, c1) # post" "pending c1"
        "call_step w opts it1 c1 s = (c1', s')" "cs1 = pre @ (it1, c1') # post"
      by blast
    from d(1) have "a # calls = (a # pre) @ (it1, c1) # post"
      by simp
    moreover from d(4) c have "calls' = (a # pre) @ (it1, c1') # post"
      by simp
    ultimately show ?thesis
      using d(2,3) by blast
  qed
  show ?case
  proof (cases "pending c")
    case False
    with Cons.prems a obtain cs1 where
      "resume w opts n calls s = (cs1, s')" "calls' = a # cs1"
      by (auto split: prod.splits)
    moreover from Cons.prems(1) False a have "n < length (filter (\<lambda>t. pending (snd t)) calls)"
      by simp
    ultimately show ?thesis
      by (intro later)
  next
    case True
    show ?thesis
    proof (cases n)
      case 0
      with Cons.prems True a obtain c' where
        "call_step w opts it c s = (c', s')" "calls' = (it, c') # calls"
        by (auto split: prod.splits)
      with True a have "a # calls = [] @ (it, c) # calls \<and> pending c
         \<and> call_step w opts it c s = (c', s') \<and> calls' = [] @ (it, c') # calls"
        by simp
      then show ?thesis
        by blast
    next
      case (Suc m)
      with Cons.prems True a obtain cs1 where
        "resume w opts m calls s = (cs1, s')" "calls' = a # cs1"
        by (auto split: prod.splits)
      moreover from Cons.prems(1) True a Suc have "m < length (filter (\<lambda>t. pending (snd t)) calls)"
        by simp
      ultimately show ?thesis
        by (intro later)
    qed
  qed
qed

text \<open>A round of \<open>run_calls\<close> is a step of one pending call.\<close>

lemma run_calls_round:
  assumes "filter (\<lambda>t. pending (snd t)) calls \<noteq> []"
    and "run_calls w opts k calls s = (calls', s')"
  shows "\<exists>pre it c post c' s1. calls = pre @ (it, c) # post \<and> pending c
     \<and> call_step w opts it c s = (c', s1)
     \<and> run_calls w opts (Suc k) (pre @ (it, c') # post) s1 = (calls', s')"
proof -
  let ?n = "schedule w (length (trace s)) k mod length (filter (\<lambda>t. pending (snd t)) calls)"
  obtain cs1 s1 where r: "resume w opts ?n calls s = (cs1, s1)"
    by (cases "resume w opts ?n calls s")
  from assms(1) have "?n < length (filter (\<lambda>t. pending (snd t)) calls)"
    by simp
  from resume_step [OF this r] obtain pre it c post c' where
    d: "calls = pre @ (it, c) # post" "pending c" "call_step w opts it c s = (c', s1)"
      "cs1 = pre @ (it, c') # post"
    by blast
  from assms r have "run_calls w opts (Suc k) cs1 s1 = (calls', s')"
    by (subst (asm) run_calls.simps) simp
  with d show ?thesis
    by blast
qed

lemma run_calls_done:
  "filter (\<lambda>t. pending (snd t)) calls = [] \<Longrightarrow> run_calls w opts k calls s = (calls, s)"
  by (subst run_calls.simps) simp

text \<open>
  A rule for the calls of a batch: what holds of the calls and the instance when the
  calls start, and is kept by the step of a pending call, holds when all have settled.
\<close>

lemma run_calls_rule:
  "(\<And>pre it c post t c' t'. I (pre @ (it, c) # post) t \<Longrightarrow> pending c \<Longrightarrow>
      call_step w opts it c t = (c', t') \<Longrightarrow> I (pre @ (it, c') # post) t') \<Longrightarrow>
   I calls s \<Longrightarrow> run_calls w opts k calls s = (calls', s') \<Longrightarrow>
    I calls' s' \<and> filter (\<lambda>t. pending (snd t)) calls' = []"
proof (induction w opts k calls s rule: run_calls.induct)
  case (1 w opts k calls s)
  note step = "1.prems"(1)
  show ?case
  proof (cases "filter (\<lambda>t. pending (snd t)) calls = []")
    case True
    with "1.prems"(2,3) run_calls_done [OF True, of w opts k s] show ?thesis
      by simp
  next
    case False
    let ?n = "schedule w (length (trace s)) k mod length (filter (\<lambda>t. pending (snd t)) calls)"
    obtain cs1 s1 where r: "resume w opts ?n calls s = (cs1, s1)"
      by (cases "resume w opts ?n calls s")
    from False have "?n < length (filter (\<lambda>t. pending (snd t)) calls)"
      by simp
    from resume_step [OF this r] obtain pre it c post c' where
      d: "calls = pre @ (it, c) # post" "pending c" "call_step w opts it c s = (c', s1)"
        "cs1 = pre @ (it, c') # post"
      by blast
    from "1.prems"(2) have "I (pre @ (it, c) # post) s"
      unfolding d(1) .
    from step [OF this d(2,3)] have i: "I cs1 s1"
      unfolding d(4) .
    from "1.prems"(3) False r have "run_calls w opts (Suc k) cs1 s1 = (calls', s')"
      by (subst (asm) run_calls.simps) simp
    from "1.IH" [OF False r [symmetric] step i this] show ?thesis .
  qed
qed

lemma start_calls_rule:
  "(\<And>started it t c' t'. I started t \<Longrightarrow> call_step w opts it Start t = (c', t') \<Longrightarrow>
      I (started @ [(it, c')]) t') \<Longrightarrow>
   I started s \<Longrightarrow> start_calls w opts started batch s = (calls, s') \<Longrightarrow>
   I calls s' \<and> map fst calls = map fst started @ batch"
proof (induction batch arbitrary: started s)
  case Nil
  then show ?case
    by simp
next
  case (Cons it batch)
  obtain c s1 where c: "call_step w opts it Start s = (c, s1)"
    by (cases "call_step w opts it Start s")
  with Cons.prems(3) have r: "start_calls w opts (started @ [(it, c)]) batch s1 = (calls, s')"
    by simp
  from Cons.prems(1) [OF Cons.prems(2) c] have "I (started @ [(it, c)]) s1" .
  from Cons.IH [OF Cons.prems(1) this r] show ?case
    by simp
qed

subsection \<open>Invariants of the loop of \<open>crawl\<close>\<close>

text \<open>
  A rule for the loop: \<open>I\<close> holds of the queue and the instance before each round, and
  \<open>E\<close> of the instance when a round raises.
\<close>

lemma crawl_loop_rule:
  assumes run: "crawl_loop w opts queue s = Some (r, s')"
    and init: "I queue s"
    and step: "\<And>q s x s1. I q s \<Longrightarrow> 0 < length q \<Longrightarrow> int (length (results s)) < maxPages opts
      \<Longrightarrow> crawl_batch w opts q s = (x, s1) \<Longrightarrow> (case x of Inl e \<Rightarrow> E s1 | Inr q1 \<Rightarrow> I q1 s1)"
  shows "case r of
      Inl e \<Rightarrow> E s'
    | Inr u \<Rightarrow> \<exists>q'. I q' s' \<and> \<not> (0 < length q' \<and> int (length (results s')) < maxPages opts)"
proof -
  define P where "P = (\<lambda>w' opts' q s (y :: (error + unit) \<times> crawler). w' = w \<longrightarrow> opts' = opts \<longrightarrow> I q s \<longrightarrow>
    (case fst y of
       Inl e \<Rightarrow> E (snd y)
     | Inr u \<Rightarrow> \<exists>q'. I q' (snd y) \<and> \<not> (0 < length q' \<and> int (length (results (snd y))) < maxPages opts)))"
  have "P w opts queue s (r, s')"
  proof (rule crawl_loop.raw_induct [where P = P, OF _ run])
    fix f w' opts' q t y
    assume IH: "\<And>wa optsa qa ta ya. f wa optsa qa ta = Some ya \<Longrightarrow> P wa optsa qa ta ya"
      and eq: "(if 0 < length q \<and> int (length (results t)) < maxPages opts'
         then case crawl_batch w' opts' q t of
                (Inl e, s1) \<Rightarrow> Some (Inl e, s1)
              | (Inr queue1, s1) \<Rightarrow> f w' opts' queue1 s1
         else Some (Inr (), t)) = Some y"
    show "P w' opts' q t y"
      unfolding P_def
    proof (intro impI)
      assume w: "w' = w" and o: "opts' = opts" and i: "I q t"
      show "case fst y of
         Inl e \<Rightarrow> E (snd y)
       | Inr u \<Rightarrow> \<exists>q'. I q' (snd y) \<and> \<not> (0 < length q' \<and> int (length (results (snd y))) < maxPages opts)"
      proof (cases "0 < length q \<and> int (length (results t)) < maxPages opts")
        case False
        with eq o have "y = (Inr (), t)"
          by auto
        with i False show ?thesis
          by auto
      next
        case True
        obtain x s1 where b: "crawl_batch w opts q t = (x, s1)"
          by (cases "crawl_batch w opts q t")
        from step [OF i _ _ b] True have post: "case x of Inl e \<Rightarrow> E s1 | Inr q1 \<Rightarrow> I q1 s1"
          by simp
        show ?thesis
        proof (cases x)
          case (Inl e)
          with eq True b w o have "y = (Inl e, s1)"
            by auto
          with post Inl show ?thesis
            by simp
        next
          case (Inr q1)
          with eq True b w o have "f w opts q1 s1 = Some y"
            by auto
          from IH [OF this] post Inr show ?thesis
            by (simp add: P_def)
        qed
      qed
    qed
  qed
  with init show ?thesis
    by (cases r) (simp_all add: P_def)
qed

lemma kept_by_callsI:
  assumes "\<And>it s. Q s \<Longrightarrow> J it Start s"
    and "\<And>it c s c' s'. Q s \<Longrightarrow> J it c s \<Longrightarrow> call_step w opts it c s = (c', s')
      \<Longrightarrow> Q s' \<and> J it c' s'"
    and "\<And>it c s c' s' it2 c2. Q s \<Longrightarrow> J it c s \<Longrightarrow> call_step w opts it c s = (c', s')
      \<Longrightarrow> J it2 c2 s \<Longrightarrow> J it2 c2 s'"
  shows "kept_by_calls w opts Q J"
  unfolding kept_by_calls_def using assms by blast

text \<open>The rule for a predicate on instances with one on each call.\<close>

lemma kept_by_calls_step:
  assumes k: "kept_by_calls w opts Q J"
    and q: "Q t" and j: "\<forall>x \<in> set (pre @ (it, c) # post). J (fst x) (snd x) t"
    and c: "call_step w opts it c t = (c', t')"
  shows "Q t' \<and> (\<forall>x \<in> set (pre @ (it, c') # post). J (fst x) (snd x) t')"
proof -
  from j have jc: "J it c t"
    by simp
  from k q jc c have s: "Q t'" "J it c' t'" "\<forall>it2 c2. J it2 c2 t \<longrightarrow> J it2 c2 t'"
    unfolding kept_by_calls_def by blast+
  have "J (fst x) (snd x) t'" if "x \<in> set (pre @ (it, c') # post)" for x
  proof (cases "x = (it, c')")
    case True
    with s(2) show ?thesis
      by simp
  next
    case False
    with that have "x \<in> set (pre @ (it, c) # post)"
      by auto
    with j have "J (fst x) (snd x) t"
      by blast
    with s(3) show ?thesis
      by blast
  qed
  with s(1) show ?thesis
    by blast
qed

lemma dispatch_kept:
  assumes k: "kept_by_calls w opts Q J" and q: "Q s" and d: "dispatch w opts batch s = (rs, s')"
  shows "Q s' \<and> length rs = length batch
    \<and> (\<forall>i < length batch. J (batch ! i) (Settled (rs ! i)) s')"
proof -
  define I where "I = (\<lambda>(calls :: (item \<times> call) list) (t :: crawler).
    Q t \<and> (\<forall>x \<in> set calls. J (fst x) (snd x) t))"
  obtain calls s1 where st: "start_calls w opts [] batch s = (calls, s1)"
    by (cases "start_calls w opts [] batch s")
  obtain calls' s2 where ru: "run_calls w opts 0 calls s1 = (calls', s2)"
    by (cases "run_calls w opts 0 calls s1")
  from d st ru have rs: "rs = map (\<lambda>t. outcome (snd t)) calls'" and s': "s' = s2"
    by (simp_all add: dispatch_def)
  have start: "I (started @ [(it, c')]) t'"
    if "I started t" and "call_step w opts it Start t = (c', t')" for started it t c' t'
  proof -
    from that(1) have qt: "Q t" and js: "\<forall>x \<in> set started. J (fst x) (snd x) t"
      by (simp_all add: I_def)
    from k qt have "J it Start t"
      unfolding kept_by_calls_def by blast
    with js have "\<forall>x \<in> set (started @ (it, Start) # []). J (fst x) (snd x) t"
      by simp
    from kept_by_calls_step [OF k qt this that(2)] show ?thesis
      by (simp add: I_def)
  qed
  have step: "I (pre @ (it, c') # post) t'"
    if "I (pre @ (it, c) # post) t" and "pending c" and "call_step w opts it c t = (c', t')"
    for pre it c post t c' t'
  proof -
    from that(1) have qt: "Q t" and js: "\<forall>x \<in> set (pre @ (it, c) # post). J (fst x) (snd x) t"
      by (simp_all add: I_def)
    from kept_by_calls_step [OF k qt js that(3)] show ?thesis
      by (simp add: I_def)
  qed
  from q have "I [] s"
    by (simp add: I_def)
  have "I calls s1 \<and> map fst calls = map fst ([] :: (item \<times> call) list) @ batch"
    using \<open>I [] s\<close> st by (rule start_calls_rule [where I = I, rotated]) (rule start)
  then have i1: "I calls s1" and m1: "map fst calls = batch"
    by simp_all
  define I' where "I' = (\<lambda>(cs :: (item \<times> call) list) (t :: crawler). I cs t \<and> map fst cs = batch)"
  have step': "I' (pre @ (it, c') # post) t'"
    if "I' (pre @ (it, c) # post) t" and "pending c" and "call_step w opts it c t = (c', t')"
    for pre it c post t c' t'
    using that step [of pre it c post t c' t'] by (simp add: I'_def)
  from i1 m1 have "I' calls s1"
    by (simp add: I'_def)
  then have "I' calls' s2 \<and> filter (\<lambda>t. pending (snd t)) calls' = []"
    using ru by (rule run_calls_rule [where I = I', rotated]) (rule step')
  then have i2: "I calls' s2" and m2: "map fst calls' = batch"
    and n2: "filter (\<lambda>t. pending (snd t)) calls' = []"
    by (simp_all add: I'_def)
  from m2 have len: "length calls' = length batch"
    by (metis length_map)
  have "J (batch ! i) (Settled (rs ! i)) s'" if "i < length batch" for i
  proof -
    from that len have m: "calls' ! i \<in> set calls'"
      by simp
    with n2 have "\<not> pending (snd (calls' ! i))"
      by (simp add: filter_empty_conv)
    then obtain r where r: "snd (calls' ! i) = Settled r"
      by (cases "snd (calls' ! i)") simp_all
    from that len have "rs ! i = outcome (snd (calls' ! i))"
      by (simp add: rs)
    with r have o: "rs ! i = r"
      by simp
    from that len m2 have f: "fst (calls' ! i) = batch ! i"
      by (metis nth_map)
    from i2 m have "J (fst (calls' ! i)) (snd (calls' ! i)) s2"
      by (simp add: I_def)
    with f r o s' show ?thesis
      by simp
  qed
  moreover from i2 have "Q s'"
    by (simp add: I_def s')
  moreover from len have "length rs = length batch"
    by (simp add: rs)
  ultimately show ?thesis
    by blast
qed

lemma emit_kept:
  assumes "kept_by_crawl Q" and "Q s" and "emit w name p s = (r, s')"
  shows "Q s'"
proof -
  from emit_state [OF assms(3)] have "s' = record_effect (Emit name p) s" .
  with assms(1,2) show ?thesis
    unfolding kept_by_crawl_def by (metis inert.simps(3))
qed

lemma on_fulfilled_kept:
  assumes "kept_by_crawl Q" and "Q s" and "on_fulfilled w opts cr it q s = (x, s')"
  shows "Q s'"
proof -
  let ?s1 = "s\<lparr>results := results s @ [cr]\<rparr>"
  from assms(1,2) have q1: "Q ?s1"
    unfolding kept_by_crawl_def by blast
  from assms(3) have "s' = ?s1 \<or> (\<exists>r. emit w ''page'' (Page_payload cr) ?s1 = (r, s'))"
    by (auto simp: on_fulfilled_def Let_def split: sum.splits prod.splits if_splits)
  with q1 emit_kept [OF assms(1) q1] show ?thesis
    by blast
qed

lemma on_rejected_kept:
  assumes "kept_by_crawl Q" and "Q s" and "on_rejected w reason it s = (x, s')"
  shows "Q s'"
proof -
  let ?s1 = "s\<lparr>failedUrls := insert (item_url it) (failedUrls s)\<rparr>"
  from assms(1,2) have q1: "Q ?s1"
    unfolding kept_by_crawl_def by blast
  from assms(3) have "\<exists>r. emit w ''error'' (Page_error (item_url it) reason) ?s1 = (r, s')"
    by (auto simp: on_rejected_def Let_def split: sum.splits prod.splits)
  with emit_kept [OF assms(1) q1] show ?thesis
    by blast
qed

lemma process_results_kept:
  assumes k: "kept_by_crawl Q"
  shows "Q s \<Longrightarrow> process_results w opts zs q s = (x, s') \<Longrightarrow> Q s'"
proof (induction w opts zs q s rule: process_results.induct)
  case (1 w opts queue s)
  then show ?case by simp
next
  case (2 w opts crawlResult it rest queue s)
  obtain y s1 where f: "on_fulfilled w opts crawlResult it queue s = (y, s1)"
    by (cases "on_fulfilled w opts crawlResult it queue s")
  from on_fulfilled_kept [OF k "2.prems"(1) f] have q1: "Q s1" .
  show ?case
  proof (cases y)
    case (Inl e)
    with "2.prems"(2) f q1 show ?thesis by simp
  next
    case (Inr queue1)
    with "2.prems"(2) f have "process_results w opts rest queue1 s1 = (x, s')"
      by simp
    from "2.IH" [OF f [symmetric] Inr q1 this] show ?thesis .
  qed
next
  case (3 w opts reason it rest queue s)
  obtain y s1 where f: "on_rejected w reason it s = (y, s1)"
    by (cases "on_rejected w reason it s")
  from on_rejected_kept [OF k "3.prems"(1) f] have q1: "Q s1" .
  show ?case
  proof (cases y)
    case (Inl e)
    with "3.prems"(2) f q1 show ?thesis by simp
  next
    case (Inr u)
    with "3.prems"(2) f have "process_results w opts rest queue s1 = (x, s')"
      by simp
    from "3.IH" [OF f [symmetric] Inr q1 this] show ?thesis .
  qed
next
  case (4 w opts it rest queue s)
  then show ?case by simp
qed

lemma crawl_batch_kept:
  assumes k: "kept_by_crawl Q" and kp: "kept_by_calls w opts Q J"
    and q: "Q s" and b: "crawl_batch w opts queue s = (x, s')"
  shows "Q s'"
proof -
  let ?n = "nat (maxConcurrency opts)"
  obtain rs s1 where d: "dispatch w opts (take ?n queue) s = (rs, s1)"
    by (cases "dispatch w opts (take ?n queue) s")
  obtain y s2 where p: "process_results w opts (zip rs (take ?n queue)) (drop ?n queue) s1 = (y, s2)"
    by (cases "process_results w opts (zip rs (take ?n queue)) (drop ?n queue) s1")
  from dispatch_kept [OF kp q d] have "Q s1"
    by (rule conjunct1)
  from process_results_kept [OF k this p] have q2: "Q s2" .
  from k q2 have "Q (sleep (delay opts) s2)"
    unfolding kept_by_crawl_def sleep_def by (metis inert.simps(1))
  with q2 b d p show ?thesis
    by (auto simp: crawl_batch_def Let_def split: sum.splits if_splits)
qed

lemma crawl_loop_kept:
  assumes k: "kept_by_crawl Q" and kp: "kept_by_calls w opts Q J"
    and q: "Q s" and run: "crawl_loop w opts queue s = Some (r, s')"
  shows "Q s'"
proof -
  have step: "\<And>q t x s1. Q t \<Longrightarrow> 0 < length q \<Longrightarrow> int (length (results t)) < maxPages opts
      \<Longrightarrow> crawl_batch w opts q t = (x, s1) \<Longrightarrow> (case x of Inl e \<Rightarrow> Q s1 | Inr q1 \<Rightarrow> Q s1)"
  proof -
    fix q t x s1
    assume "Q t" and "crawl_batch w opts q t = (x, s1)"
    from crawl_batch_kept [OF k kp this] show "case x of Inl e \<Rightarrow> Q s1 | Inr q1 \<Rightarrow> Q s1"
      by (simp split: sum.split)
  qed
  from crawl_loop_rule [where I = "\<lambda>q s. Q s" and E = Q, OF run q step] show ?thesis
    by (cases r) auto
qed

lemma crawl_kept:
  assumes k: "kept_by_crawl Q" and kp: "kept_by_calls w opts Q J"
    and q: "Q s" and run: "crawl w opts startUrl s = Some (r, s')"
  shows "Q s'"
proof -
  have dn: "\<And>t. Q t \<Longrightarrow> Q (record_effect DateNow t)"
    using k unfolding kept_by_crawl_def by (metis inert.simps(2))
  have ct: "\<And>e t x t'. Q t \<Longrightarrow> crawl_catch w e t = (x, t') \<Longrightarrow> Q t'"
    using emit_kept [OF k] by (auto simp: crawl_catch_def split: prod.splits sum.splits)
  have fin: "\<And>st t x t'. Q t \<Longrightarrow> crawl_finish w st t = (x, t') \<Longrightarrow> Q t'"
  proof -
    fix st t x t'
    assume t: "Q t" and f: "crawl_finish w st t = (x, t')"
    let ?t1 = "record_effect DateNow t"
    let ?summ = "summary_of ?t1 st (dateNow w (length (trace t)))"
    obtain y t2 where e: "emit w ''complete'' (Complete (results ?t1) ?summ) ?t1 = (y, t2)"
      by (cases "emit w ''complete'' (Complete (results ?t1) ?summ) ?t1")
    from emit_kept [OF k dn [OF t] e] have "Q t2" .
    with f e ct [of t2] show "Q t'"
      by (auto simp: crawl_finish_def Date_now_def Let_def split: sum.splits)
  qed
  let ?s0 = "record_effect DateNow s"
  from run obtain x s1 where
    l: "crawl_loop w opts [\<lparr>item_url = startUrl, item_depth = 0, item_parent = None\<rparr>] ?s0
      = Some (x, s1)"
    by (auto simp: crawl_def Date_now_def split: option.splits)
  from crawl_loop_kept [OF k kp dn [OF q] l] have q1: "Q s1" .
  from run l have "(\<exists>e. crawl_catch w e s1 = (r, s')) \<or> (\<exists>st. crawl_finish w st s1 = (r, s'))"
    by (auto simp: crawl_def Date_now_def split: sum.splits)
  with ct [OF q1] fin [OF q1] show ?thesis
    by blast
qed

subsection \<open>The additions to \<open>visitedUrls\<close>\<close>

lemma added_append: "added (es @ es') = added es @ added es'"
  by (induction es rule: added.induct) simp_all

lemma visit_order_append:
  "visit_order V A (es @ es') \<longleftrightarrow> visit_order V A es \<and> visit_order V (A \<union> set (added es)) es'"
  by (induction V A es rule: visit_order.induct) simp_all

lemma set_added: "set (added es) = {u. VisitedAdd u \<in> set es}"
  by (induction es rule: added.induct) auto

lemma visit_order_distinct:
  "visit_order V A es \<Longrightarrow> distinct (added es) \<and> set (added es) \<inter> (V \<union> A) = {}"
  by (induction V A es rule: visit_order.induct) auto

lemma visit_order_before:
  "visit_order V A es \<Longrightarrow> es = pre @ Get_page u # post \<Longrightarrow> u \<in> A \<or> VisitedAdd u \<in> set pre"
proof (induction V A es arbitrary: pre rule: visit_order.induct)
  case (1 V A)
  then show ?case by simp
next
  case (2 V A v es)
  then obtain pre' where "pre = VisitedAdd v # pre'" "es = pre' @ Get_page u # post"
    by (cases pre) auto
  with 2 show ?case by auto
next
  case (3 V A v es)
  show ?case
  proof (cases pre)
    case Nil
    with 3 show ?thesis by simp
  next
    case (Cons a pre')
    with 3 show ?thesis by auto
  qed
next
  case (4 V A v es)
  then obtain pre' where "pre = Get_robots v # pre'" "es = pre' @ Get_page u # post"
    by (cases pre) auto
  with 4 show ?case by auto
next
  case (5 V A v es)
  then obtain pre' where "pre = Sleep v # pre'" "es = pre' @ Get_page u # post"
    by (cases pre) auto
  with 5 show ?case by auto
next
  case (6 V A es)
  then obtain pre' where "pre = DateNow # pre'" "es = pre' @ Get_page u # post"
    by (cases pre) auto
  with 6 show ?case by auto
next
  case (7 V A n p es)
  then obtain pre' where "pre = Emit n p # pre'" "es = pre' @ Get_page u # post"
    by (cases pre) auto
  with 7 show ?case by auto
qed

lemma requests_of_visited:
  "set es \<subseteq> {Get_page u, DateNow} \<union> range Get_robots \<union> range Sleep \<Longrightarrow> u \<in> A
   \<Longrightarrow> visit_order V A es \<and> added es = []"
  by (induction V A es rule: visit_order.induct) auto

lemma inert_effect: "inert e \<Longrightarrow> visit_order V A [e] \<and> added [e] = []"
  by (cases e) simp_all

text \<open>The invariant: the effects since the trace \<open>L\<close>, when \<open>V\<close> were the visited URLs.\<close>

lemma visit_order_kept_by_crawl:
  "kept_by_crawl (\<lambda>s. \<exists>es. trace s = L @ es \<and> visit_order V {} es
      \<and> visitedUrls s = V \<union> set (added es))"
  unfolding kept_by_crawl_def
proof (intro conjI allI impI)
  fix s :: crawler and e :: effect
  assume "\<exists>es. trace s = L @ es \<and> visit_order V {} es \<and> visitedUrls s = V \<union> set (added es)"
    and i: "inert e"
  then obtain es where es: "trace s = L @ es" "visit_order V {} es"
    "visitedUrls s = V \<union> set (added es)"
    by blast
  from inert_effect [OF i] es
  have "trace (record_effect e s) = L @ (es @ [e]) \<and> visit_order V {} (es @ [e])
      \<and> visitedUrls (record_effect e s) = V \<union> set (added (es @ [e]))"
    by (simp add: visit_order_append added_append)
  then show "\<exists>es. trace (record_effect e s) = L @ es \<and> visit_order V {} es
      \<and> visitedUrls (record_effect e s) = V \<union> set (added es)"
    by blast
qed simp_all

text \<open>
  With it, of a call: when it has started and has not settled, its URL has been added
  since \<open>L\<close>.
\<close>

lemma visit_order_kept_by_calls:
  "kept_by_calls w opts
     (\<lambda>s. \<exists>es. trace s = L @ es \<and> visit_order V {} es \<and> visitedUrls s = V \<union> set (added es))
     (\<lambda>it c s. c \<noteq> Start \<longrightarrow> pending c \<longrightarrow>
        VisitedAdd (item_url it) \<in> set (drop (length L) (trace s)))"
proof (rule kept_by_callsI)
  fix it :: item and s :: crawler
  show "Start \<noteq> Start \<longrightarrow> pending Start \<longrightarrow>
    VisitedAdd (item_url it) \<in> set (drop (length L) (trace s))"
    by simp
next
  fix it it2 :: item and c c' c2 :: call and s s' :: crawler
  assume "\<exists>es. trace s = L @ es \<and> visit_order V {} es \<and> visitedUrls s = V \<union> set (added es)"
    and j: "c \<noteq> Start \<longrightarrow> pending c \<longrightarrow> VisitedAdd (item_url it) \<in> set (drop (length L) (trace s))"
    and c: "call_step w opts it c s = (c', s')"
  then obtain es where es: "trace s = L @ es" "visit_order V {} es"
    "visitedUrls s = V \<union> set (added es)"
    by blast
  let ?u = "item_url it"
  have "\<exists>es1. trace s' = L @ es @ es1 \<and> visit_order V {} (es @ es1)
      \<and> visitedUrls s' = V \<union> set (added (es @ es1))
      \<and> (c' \<noteq> Start \<longrightarrow> pending c' \<longrightarrow> VisitedAdd ?u \<in> set (es @ es1))"
  proof (cases "c = Start")
    case True
    show ?thesis
    proof (cases "?u \<in> visitedUrls s")
      case True
      with c \<open>c = Start\<close> have "s' = s" "c' = Settled (Inr None)"
        by simp_all
      with es show ?thesis
        by (intro exI [of _ "[]"]) simp
    next
      case False
      from call_step_start [OF c [unfolded \<open>c = Start\<close>] False] obtain es1 where
        v: "visitedUrls s' = insert ?u (visitedUrls s)" and
        t: "trace s' = trace s @ VisitedAdd ?u # es1" and
        sub: "set es1 \<subseteq> {Get_page ?u, DateNow} \<union> range Get_robots"
        by auto
      from sub have "set es1 \<subseteq> {Get_page ?u, DateNow} \<union> range Get_robots \<union> range Sleep"
        by auto
      from requests_of_visited [OF this, of "insert ?u (set (added es))" V]
      have r: "visit_order V (insert ?u (set (added es))) es1" "added es1 = []"
        by simp_all
      from False es(3) have fresh: "?u \<notin> V" "?u \<notin> set (added es)"
        by simp_all
      have "trace s' = L @ es @ (VisitedAdd ?u # es1)"
        by (simp add: t es(1))
      moreover have "visit_order V {} (es @ VisitedAdd ?u # es1)"
        using es(2) fresh r(1) by (simp add: visit_order_append)
      moreover have "visitedUrls s' = V \<union> set (added (es @ VisitedAdd ?u # es1))"
        by (simp add: v es(3) added_append r(2))
      moreover have "VisitedAdd ?u \<in> set (es @ VisitedAdd ?u # es1)"
        by simp
      ultimately show ?thesis
        by (intro exI [of _ "VisitedAdd ?u # es1"]) simp
    qed
  next
    case False
    show ?thesis
    proof (cases "pending c")
      case False
      then obtain r where "c = Settled r"
        by (cases c) simp_all
      with c have "s' = s" "c' = Settled r"
        by simp_all
      with es show ?thesis
        by (intro exI [of _ "[]"]) simp
    next
      case True
      with j \<open>c \<noteq> Start\<close> es(1) have a: "VisitedAdd ?u \<in> set es"
        by simp
      then have m: "?u \<in> set (added es)"
        by (simp add: set_added)
      from call_step_resumed [OF c \<open>c \<noteq> Start\<close>] obtain es1 where
        v: "visitedUrls s' = visitedUrls s" and
        t: "trace s' = trace s @ es1" and
        sub: "set es1 \<subseteq> {Get_page ?u, DateNow} \<union> range Sleep"
        by auto
      from sub have "set es1 \<subseteq> {Get_page ?u, DateNow} \<union> range Get_robots \<union> range Sleep"
        by auto
      from requests_of_visited [OF this m, of V]
      have r: "visit_order V (set (added es)) es1" "added es1 = []"
        by simp_all
      have "trace s' = L @ es @ es1"
        by (simp add: t es(1))
      moreover have "visit_order V {} (es @ es1)"
        using es(2) r(1) by (simp add: visit_order_append)
      moreover have "visitedUrls s' = V \<union> set (added (es @ es1))"
        by (simp add: v es(3) added_append r(2))
      moreover from a have "VisitedAdd ?u \<in> set (es @ es1)"
        by simp
      ultimately show ?thesis
        by (intro exI [of _ es1]) simp
    qed
  qed
  then obtain es1 where
    n: "trace s' = L @ es @ es1" "visit_order V {} (es @ es1)"
      "visitedUrls s' = V \<union> set (added (es @ es1))"
      "c' \<noteq> Start \<longrightarrow> pending c' \<longrightarrow> VisitedAdd ?u \<in> set (es @ es1)"
    by blast
  from n(1-3)
  have "\<exists>es. trace s' = L @ es \<and> visit_order V {} es \<and> visitedUrls s' = V \<union> set (added es)"
    by (intro exI [of _ "es @ es1"]) simp
  moreover from n(1,4)
  have "c' \<noteq> Start \<longrightarrow> pending c' \<longrightarrow> VisitedAdd ?u \<in> set (drop (length L) (trace s'))"
    by simp
  ultimately
  show "(\<exists>es. trace s' = L @ es \<and> visit_order V {} es \<and> visitedUrls s' = V \<union> set (added es))
    \<and> (c' \<noteq> Start \<longrightarrow> pending c' \<longrightarrow> VisitedAdd ?u \<in> set (drop (length L) (trace s')))"
    by (rule conjI)
  assume "c2 \<noteq> Start \<longrightarrow> pending c2 \<longrightarrow>
    VisitedAdd (item_url it2) \<in> set (drop (length L) (trace s))"
  with es(1) n(1)
  show "c2 \<noteq> Start \<longrightarrow> pending c2 \<longrightarrow>
    VisitedAdd (item_url it2) \<in> set (drop (length L) (trace s'))"
    by auto
qed

lemma crawl_visit_order:
  assumes "crawl w opts startUrl s = Some (r, s')"
  shows "\<exists>es. trace s' = trace s @ es \<and> visit_order (visitedUrls s) {} es
      \<and> visitedUrls s' = visitedUrls s \<union> set (added es)"
proof -
  have "\<exists>es. trace s = trace s @ es \<and> visit_order (visitedUrls s) {} es
      \<and> visitedUrls s = visitedUrls s \<union> set (added es)"
    by (intro exI [of _ "[]"]) simp
  from crawl_kept [OF visit_order_kept_by_crawl visit_order_kept_by_calls this assms]
  show ?thesis .
qed

lemma crawlPage_visited:
  "u \<in> visitedUrls s \<Longrightarrow> crawlPage w opts u d p s = (Inr None, s)"
  by (simp add: crawlPage_def)

lemma crawlPage_adds_first:
  assumes "u \<notin> visitedUrls s"
  shows "\<exists>es. trace (snd (crawlPage w opts u d p s)) = trace s @ VisitedAdd u # es
    \<and> VisitedAdd u \<notin> set es"
proof -
  obtain r s' where c: "crawlPage w opts u d p s = (r, s')"
    by (cases "crawlPage w opts u d p s")
  from crawlPage_effect [OF c] assms obtain es where
    "trace s' = trace s @ VisitedAdd u # es"
    "set es \<subseteq> {Get_page u, DateNow} \<union> range Get_robots \<union> range Sleep"
    by auto
  then have "trace s' = trace s @ VisitedAdd u # es \<and> VisitedAdd u \<notin> set es"
    by auto
  with c show ?thesis
    by auto
qed

text \<open>
  C4. In a run of \<open>crawl\<close>, no URL is added to \<open>visitedUrls\<close> that was in it when the
  run started, no URL is added twice, the visited URLs at the end are those at the
  start and the added ones, and every page request comes after the addition of its
  URL. A call of \<open>crawlPage\<close> for a URL that is not visited adds it as its first
  effect, and only then; a call for a visited URL returns \<open>null\<close> and leaves the
  instance and the trace as they are; and for a \<open>null\<close> outcome the loop of lines 77 to
  106 changes neither the queue nor the instance nor the trace.
\<close>

theorem visited_once_before_fetch:
  assumes "crawl w opts startUrl s = Some (r, s')"
  shows "(\<exists>es. trace s' = trace s @ es
      \<and> (\<forall>u. VisitedAdd u \<in> set es \<longrightarrow> u \<notin> visitedUrls s)
      \<and> distinct (added es)
      \<and> visitedUrls s' = visitedUrls s \<union> set (added es)
      \<and> (\<forall>pre post u. es = pre @ Get_page u # post \<longrightarrow> VisitedAdd u \<in> set pre))
    \<and> (\<forall>u d p t. u \<notin> visitedUrls t \<longrightarrow>
          (\<exists>es. trace (snd (crawlPage w opts u d p t)) = trace t @ VisitedAdd u # es
             \<and> VisitedAdd u \<notin> set es))
    \<and> (\<forall>u d p t. u \<in> visitedUrls t \<longrightarrow> crawlPage w opts u d p t = (Inr None, t))
    \<and> (\<forall>it queue t. process_results w opts [(Inr None, it)] queue t = (Inr queue, t))"
proof -
  from crawl_visit_order [OF assms] obtain es where
    es: "trace s' = trace s @ es" "visit_order (visitedUrls s) {} es"
    "visitedUrls s' = visitedUrls s \<union> set (added es)"
    by blast
  from visit_order_distinct [OF es(2)] have d: "distinct (added es)"
    and f: "\<forall>u. VisitedAdd u \<in> set es \<longrightarrow> u \<notin> visitedUrls s"
    by (auto simp: set_added)
  from visit_order_before [OF es(2)]
  have b: "\<forall>pre post u. es = pre @ Get_page u # post \<longrightarrow> VisitedAdd u \<in> set pre"
    by auto
  from es(1) f d es(3) b have run: "\<exists>es. trace s' = trace s @ es
      \<and> (\<forall>u. VisitedAdd u \<in> set es \<longrightarrow> u \<notin> visitedUrls s)
      \<and> distinct (added es)
      \<and> visitedUrls s' = visitedUrls s \<union> set (added es)
      \<and> (\<forall>pre post u. es = pre @ Get_page u # post \<longrightarrow> VisitedAdd u \<in> set pre)"
    by (intro exI [of _ es] conjI)
  show ?thesis
    using run crawlPage_adds_first [of _ _ w opts] crawlPage_visited [of _ _ w opts]
    by (intro conjI allI impI) simp_all
qed

lemma added_filter:
  "added (filter (\<lambda>e. case e of Emit name p \<Rightarrow> False | DateNow \<Rightarrow> False | _ \<Rightarrow> True) es) = added es"
  by (induction es rule: added.induct) simp_all

theorem visited_once_before_fetch_witness:
  "\<exists>s' es. crawl site defaults ''http://a.test/'' new_WebCrawler = Some (Inr site_out, s')
     \<and> trace s' = trace new_WebCrawler @ es
     \<and> added es = [''http://a.test/'', ''http://a.test/x'', ''http://a.test/y'',
          ''http://a.test/admin/z'', ''http://a.test/w'']
     \<and> distinct (added es)
     \<and> visitedUrls s' = visitedUrls new_WebCrawler \<union> set (added es)
     \<and> ''http://a.test/'' \<in> visitedUrls s'
     \<and> crawlPage site defaults ''http://a.test/'' 0 None s' = (Inr None, s')"
proof -
  from site_run_state obtain s' where
    run: "crawl site defaults ''http://a.test/'' new_WebCrawler = Some (Inr site_out, s')" and
    v: "visitedUrls s' = {''http://a.test/w'', ''http://a.test/admin/z'', ''http://a.test/y'',
          ''http://a.test/x'', ''http://a.test/''}" and
    t: "filter (\<lambda>e. case e of Emit name p \<Rightarrow> False | DateNow \<Rightarrow> False | _ \<Rightarrow> True) (trace s')
         = site_effects"
    by (elim exE conjE)
  note T = visited_once_before_fetch [OF run]
  from T [THEN conjunct1] obtain es where
    es: "trace s' = trace new_WebCrawler @ es" and d: "distinct (added es)" and
    vs: "visitedUrls s' = visitedUrls new_WebCrawler \<union> set (added es)"
    by (elim exE conjE)
  from es have "es = trace s'"
    by (simp add: new_WebCrawler_def)
  then have "added es = added site_effects"
    using added_filter [of "trace s'"] by (simp add: t)
  then have a: "added es = [''http://a.test/'', ''http://a.test/x'', ''http://a.test/y'',
          ''http://a.test/admin/z'', ''http://a.test/w'']"
    by (simp add: site_effects_def)
  have m: "''http://a.test/'' \<in> visitedUrls s'"
    by (simp add: v)
  from T [THEN conjunct2, THEN conjunct2, THEN conjunct1] m
  have n: "crawlPage site defaults ''http://a.test/'' 0 None s' = (Inr None, s')"
    by (elim allE [of _ "''http://a.test/''"] allE [of _ 0] allE [of _ None] allE [of _ s'] impE)
  from run es a d vs m n show ?thesis
    by (intro exI [of _ s'] exI [of _ es] conjI)
qed

subsection \<open>The instance across runs\<close>

lemma extends_refl: "extends s s"
  by (simp add: extends_def)

lemma extends_trans: "extends s t \<Longrightarrow> extends t u \<Longrightarrow> extends s u"
  unfolding extends_def by (meson map_le_trans prefix_order.order_trans subset_trans)

lemma extends_kept_by_crawl: "kept_by_crawl (extends s0)"
  unfolding kept_by_crawl_def extends_def
  by (auto simp: record_effect_def intro: prefix_order.order_trans)

text \<open>
  With it, of a call: the robots file it waits for was not in the cache of \<open>s0\<close>, so
  that what the call stores replaces no entry of \<open>s0\<close>.
\<close>

lemma extends_kept_by_calls:
  "kept_by_calls w opts (extends s0)
     (\<lambda>it c s. \<forall>R r. c = Await_robots R r \<longrightarrow> R \<notin> dom (robotsCache s0))"
proof (rule kept_by_callsI)
  fix it :: item and s :: crawler
  show "\<forall>R r. Start = Await_robots R r \<longrightarrow> R \<notin> dom (robotsCache s0)"
    by simp
next
  fix it it2 :: item and c c' c2 :: call and s s' :: crawler
  assume e: "extends s0 s"
    and j: "\<forall>R r. c = Await_robots R r \<longrightarrow> R \<notin> dom (robotsCache s0)"
    and c: "call_step w opts it c s = (c', s')"
  from e have sub: "dom (robotsCache s0) \<subseteq> dom (robotsCache s)"
    by (simp add: extends_def map_le_implies_dom_le)
  have "extends s0 s' \<and> (\<forall>R r. c' = Await_robots R r \<longrightarrow> R \<notin> dom (robotsCache s0))"
  proof (cases "c = Start")
    case True
    show ?thesis
    proof (cases "item_url it \<in> visitedUrls s")
      case True
      with c \<open>c = Start\<close> have "s' = s" "c' = Settled (Inr None)"
        by simp_all
      with e show ?thesis
        by simp
    next
      case False
      from call_step_start [OF c [unfolded \<open>c = Start\<close>] False] obtain es where
        f: "visitedUrls s' = insert (item_url it) (visitedUrls s)" "failedUrls s' = failedUrls s"
          "results s' = results s" "robotsCache s' = robotsCache s"
          "trace s' = trace s @ VisitedAdd (item_url it) # es"
          "\<forall>R r. c' = Await_robots R r \<longrightarrow> R \<notin> dom (robotsCache s)"
        by auto
      from f(1-5) have "extends s s'"
        by (auto simp: extends_def)
      with e have "extends s0 s'"
        by (rule extends_trans)
      with f(6) sub show ?thesis
        by blast
    qed
  next
    case False
    from call_step_resumed [OF c False] obtain es where
      f: "visitedUrls s' = visitedUrls s" "failedUrls s' = failedUrls s"
        "results s' = results s" "trace s' = trace s @ es"
        "\<forall>R r. c' \<noteq> Await_robots R r"
        "case c of Await_robots R r \<Rightarrow> \<exists>v. robotsCache s' = (robotsCache s)(R \<mapsto> v)
          | _ \<Rightarrow> robotsCache s' = robotsCache s"
      by auto
    have "robotsCache s0 \<subseteq>\<^sub>m robotsCache s'"
    proof (cases "\<exists>R r. c = Await_robots R r")
      case True
      then obtain R r where a: "c = Await_robots R r"
        by blast
      with f(6) obtain v where v: "robotsCache s' = (robotsCache s)(R \<mapsto> v)"
        by auto
      from j a have "R \<notin> dom (robotsCache s0)"
        by simp
      with e show ?thesis
        unfolding v extends_def by (auto simp: map_le_def)
    next
      case False
      with f(6) have "robotsCache s' = robotsCache s"
        by (cases c) simp_all
      with e show ?thesis
        by (simp add: extends_def)
    qed
    with e f(1-4) have "extends s0 s'"
      by (auto simp: extends_def)
    with f(5) show ?thesis
      by simp
  qed
  then show "extends s0 s' \<and> (\<forall>R r. c' = Await_robots R r \<longrightarrow> R \<notin> dom (robotsCache s0))" .
  assume "\<forall>R r. c2 = Await_robots R r \<longrightarrow> R \<notin> dom (robotsCache s0)"
  then show "\<forall>R r. c2 = Await_robots R r \<longrightarrow> R \<notin> dom (robotsCache s0)" .
qed

lemma crawl_extends:
  assumes "crawl w opts startUrl s = Some (r, s')"
  shows "extends s s'"
  using crawl_kept [OF extends_kept_by_crawl extends_kept_by_calls extends_refl assms] .

lemma crawl_Inr_results:
  assumes "crawl w opts startUrl s = Some (Inr out, s')"
  shows "out_results out = results s' \<and> totalPages (out_summary out) = length (results s')"
proof -
  from assms obtain st s1 where "crawl_finish w st s1 = (Inr out, s')"
    by (auto simp: crawl_def split: option.splits sum.splits prod.splits dest: crawl_catch_Inl)
  from crawl_finish_Inr [OF this] show ?thesis
    by (simp add: summary_of_def)
qed

text \<open>
  C10. A run of \<open>crawl\<close> starts from the fields as the runs before it left them and
  only adds to them: the results at the start are a prefix of the results at the end,
  which are what the run returns and what \<open>totalPages\<close> counts; the visited and the
  failed URLs at the start are still there; an entry of the robots cache stays as it
  is. A URL visited before the run is not requested during the run, and \<open>crawlPage\<close>
  returns \<open>null\<close> for it after the run.
\<close>

theorem crawl_keeps_instance_state:
  assumes "crawl w opts startUrl s = Some (r, s')"
  shows "prefix (results s) (results s')
    \<and> visitedUrls s \<subseteq> visitedUrls s'
    \<and> failedUrls s \<subseteq> failedUrls s'
    \<and> robotsCache s \<subseteq>\<^sub>m robotsCache s'
    \<and> (\<forall>out. r = Inr out \<longrightarrow>
          out_results out = results s' \<and> totalPages (out_summary out) = length (results s'))
    \<and> (\<forall>u \<in> visitedUrls s.
          Get_page u \<notin> set (drop (length (trace s)) (trace s'))
          \<and> (\<forall>d p. crawlPage w opts u d p s' = (Inr None, s')))"
proof -
  from crawl_extends [OF assms] have e: "prefix (results s) (results s')"
    "visitedUrls s \<subseteq> visitedUrls s'" "failedUrls s \<subseteq> failedUrls s'"
    "robotsCache s \<subseteq>\<^sub>m robotsCache s'"
    by (simp_all add: extends_def)
  have o: "\<forall>out. r = Inr out \<longrightarrow>
          out_results out = results s' \<and> totalPages (out_summary out) = length (results s')"
    using assms crawl_Inr_results by blast
  from crawl_visit_order [OF assms] obtain es where
    es: "trace s' = trace s @ es" "visit_order (visitedUrls s) {} es"
    by blast
  have g: "\<forall>u \<in> visitedUrls s.
          Get_page u \<notin> set (drop (length (trace s)) (trace s'))
          \<and> (\<forall>d p. crawlPage w opts u d p s' = (Inr None, s'))"
  proof
    fix u assume u: "u \<in> visitedUrls s"
    have "Get_page u \<notin> set es"
    proof
      assume "Get_page u \<in> set es"
      then obtain pre post where "es = pre @ Get_page u # post"
        by (auto simp: in_set_conv_decomp)
      from visit_order_before [OF es(2) this] have "VisitedAdd u \<in> set es"
        using \<open>es = pre @ Get_page u # post\<close> by auto
      with visit_order_distinct [OF es(2)] u show False
        by (auto simp: set_added)
    qed
    moreover from u e(2) have "\<forall>d p. crawlPage w opts u d p s' = (Inr None, s')"
      by (auto simp: crawlPage_visited)
    ultimately show "Get_page u \<notin> set (drop (length (trace s)) (trace s'))
          \<and> (\<forall>d p. crawlPage w opts u d p s' = (Inr None, s'))"
      by (simp add: es(1))
  qed
  from e o g show ?thesis
    by (intro conjI)
qed

lemma site_again:
  assumes "''http://a.test/'' \<in> visitedUrls s"
  shows "\<exists>out s'. crawl site defaults ''http://a.test/'' s = Some (Inr out, s')
    \<and> results s' = results s"
proof (cases "int (length (results s)) < 100")
  case True
  with assms show ?thesis
    by (simp add: unfold_all unfold_site)
next
  case False
  with assms show ?thesis
    by (simp add: unfold_all unfold_site)
qed

theorem crawl_keeps_instance_state_witness:
  "\<exists>s1 out2 s2.
     crawl site defaults ''http://a.test/'' new_WebCrawler = Some (Inr site_out, s1)
     \<and> crawl site defaults ''http://a.test/'' s1 = Some (Inr out2, s2)
     \<and> prefix (results s1) (results s2)
     \<and> out_results out2 = out_results site_out
     \<and> totalPages (out_summary out2) = 4
     \<and> ''http://a.test/x'' \<in> visitedUrls s1
     \<and> Get_page ''http://a.test/x'' \<notin> set (drop (length (trace s1)) (trace s2))
     \<and> crawlPage site defaults ''http://a.test/x'' 0 None s2 = (Inr None, s2)"
proof -
  from site_run_state obtain s1 where
    run1: "crawl site defaults ''http://a.test/'' new_WebCrawler = Some (Inr site_out, s1)" and
    v: "visitedUrls s1 = {''http://a.test/w'', ''http://a.test/admin/z'', ''http://a.test/y'',
          ''http://a.test/x'', ''http://a.test/''}" and
    rs: "results s1 = out_results site_out"
    by (elim exE conjE)
  have seed: "''http://a.test/'' \<in> visitedUrls s1" and x: "''http://a.test/x'' \<in> visitedUrls s1"
    by (simp_all add: v)
  from site_again [OF seed] obtain out2 s2 where
    run2: "crawl site defaults ''http://a.test/'' s1 = Some (Inr out2, s2)" and
    same: "results s2 = results s1"
    by (elim exE conjE)
  note T = crawl_keeps_instance_state [OF run2]
  from T have p: "prefix (results s1) (results s2)"
    by (rule conjunct1)
  from T have "\<forall>out. (Inr out2 :: error + crawl_output) = Inr out \<longrightarrow>
          out_results out = results s2 \<and> totalPages (out_summary out) = length (results s2)"
    by (elim conjE)
  then have o: "out_results out2 = results s2 \<and> totalPages (out_summary out2) = length (results s2)"
    by (elim allE [of _ out2] impE) simp_all
  from o same rs have o1: "out_results out2 = out_results site_out"
    by simp
  from o same rs have o2: "totalPages (out_summary out2) = 4"
    by (simp add: site_out_def)
  from T have "\<forall>u \<in> visitedUrls s1.
          Get_page u \<notin> set (drop (length (trace s1)) (trace s2))
          \<and> (\<forall>d p. crawlPage site defaults u d p s2 = (Inr None, s2))"
    by (elim conjE)
  from bspec [OF this x]
  have g: "Get_page ''http://a.test/x'' \<notin> set (drop (length (trace s1)) (trace s2))"
    and c: "crawlPage site defaults ''http://a.test/x'' 0 None s2 = (Inr None, s2)"
    by simp_all
  from run1 run2 p o1 o2 x g c show ?thesis
    by (intro exI [of _ s1] exI [of _ out2] exI [of _ s2] conjI)
qed

subsection \<open>The depth of the pages\<close>

text \<open>A step of a call keeps a predicate on \<open>results\<close>, \<open>failedUrls\<close> and finiteness.\<close>

lemma call_step_frame:
  assumes "call_step w opts it c s = (c', s')"
  shows "results s' = results s \<and> failedUrls s' = failedUrls s
    \<and> (visitedUrls s' = visitedUrls s \<or> visitedUrls s' = insert (item_url it) (visitedUrls s))"
proof (cases "c = Start")
  case True
  show ?thesis
  proof (cases "item_url it \<in> visitedUrls s")
    case True
    with assms \<open>c = Start\<close> show ?thesis
      by simp
  next
    case False
    from call_step_start [OF assms [unfolded \<open>c = Start\<close>] False] show ?thesis
      by simp
  qed
next
  case False
  from call_step_resumed [OF assms False] show ?thesis
    by simp
qed

lemma dispatch_results:
  assumes "dispatch w opts batch s = (rs, s')"
  shows "results s' = results s \<and> failedUrls s' = failedUrls s"
proof -
  have "kept_by_calls w opts (\<lambda>t. results t = results s \<and> failedUrls t = failedUrls s)
      (\<lambda>it c t. True)"
  proof (rule kept_by_callsI)
    fix it c t c' t'
    assume "results t = results s \<and> failedUrls t = failedUrls s"
      and "call_step w opts it c t = (c', t')"
    with call_step_frame [OF this(2)]
    show "(results t' = results s \<and> failedUrls t' = failedUrls s) \<and> True"
      by simp
  qed simp_all
  from dispatch_kept [OF this _ assms] show ?thesis
    by simp
qed

text \<open>A page that a call settles with has the depth of the item.\<close>

lemma page_settle_page:
  assumes "page_settle w u d p st r s = (Inr (Some pg), s')"
  shows "depth pg = d \<and> originalUrl pg = u \<and> parent pg = p"
  using assms
  by (auto simp: page_settle_def page_info_def Let_def split: sum.splits prod.splits if_splits)

lemma call_step_page:
  assumes "call_step w opts it c s = (Settled (Inr (Some pg)), s')"
  shows "c = Settled (Inr (Some pg))
    \<or> depth pg = item_depth it \<and> originalUrl pg = item_url it \<and> parent pg = item_parent it"
proof (cases c)
  case Start
  show ?thesis
  proof (cases "item_url it \<in> visitedUrls s")
    case True
    with assms Start show ?thesis
      by simp
  next
    case False
    with assms Start show ?thesis
      by (auto simp: Let_def enter_loop_def request_page_def
          split: sum.splits prod.splits if_splits)
  qed
next
  case (Await_robots R r)
  with assms show ?thesis
    by (simp add: Let_def)
next
  case (Await_allowed v)
  with assms show ?thesis
    by (auto simp: enter_loop_def request_page_def split: prod.splits if_splits)
next
  case (Await_page st n r)
  with assms obtain s1 where
    "page_settle w (item_url it) (item_depth it) (item_parent it) st r s = (Inr (Some pg), s1)"
    by (auto split: prod.splits sum.splits if_splits)
  from page_settle_page [OF this] show ?thesis
    by simp
next
  case (Await_sleep st n)
  with assms show ?thesis
    by (auto simp: request_page_def split: prod.splits if_splits)
next
  case (Settled r)
  with assms show ?thesis
    by simp
qed

lemma dispatch_pages:
  assumes "dispatch w opts batch s = (rs, s')"
  shows "length rs = length batch
   \<and> (\<forall>(res, it) \<in> set (zip rs batch). \<forall>pg. res = Inr (Some pg) \<longrightarrow> depth pg = item_depth it)"
proof -
  have "kept_by_calls w opts (\<lambda>t. True)
      (\<lambda>it c t. \<forall>pg. c = Settled (Inr (Some pg)) \<longrightarrow> depth pg = item_depth it)"
  proof (rule kept_by_callsI)
    fix it :: item and c c' :: call and t t' :: crawler
    assume j: "\<forall>pg. c = Settled (Inr (Some pg)) \<longrightarrow> depth pg = item_depth it"
      and c: "call_step w opts it c t = (c', t')"
    have "depth pg = item_depth it" if "c' = Settled (Inr (Some pg))" for pg
      using call_step_page [OF c [unfolded that]] j by auto
    then show "True \<and> (\<forall>pg. c' = Settled (Inr (Some pg)) \<longrightarrow> depth pg = item_depth it)"
      by simp
  qed simp_all
  from dispatch_kept [OF this _ assms]
  have l: "length rs = length batch"
    and p: "\<forall>i < length batch. \<forall>pg. Settled (rs ! i) = Settled (Inr (Some pg))
      \<longrightarrow> depth pg = item_depth (batch ! i)"
    by simp_all
  have "\<forall>pg. res = Inr (Some pg) \<longrightarrow> depth pg = item_depth it"
    if "(res, it) \<in> set (zip rs batch)" for res it
  proof -
    from that obtain i where "i < length batch" "rs ! i = res" "batch ! i = it"
      by (auto simp: set_zip)
    with p show ?thesis
      by auto
  qed
  with l show ?thesis
    by blast
qed

lemma on_fulfilled_effect:
  assumes "on_fulfilled w opts cr it q s = (x, s')"
  shows "results s' = results s @ [cr] \<and> failedUrls s' = failedUrls s
    \<and> visitedUrls s' = visitedUrls s
    \<and> (\<forall>q'. x = Inr q' \<longrightarrow>
          (\<exists>new. q' = q @ new
             \<and> (\<forall>n \<in> set new. item_depth n = item_depth it + 1
                   \<and> item_depth it < maxDepth opts
                   \<and> item_parent n = Some (url cr)
                   \<and> item_url n \<notin> visitedUrls s \<and> item_url n \<notin> failedUrls s)))"
proof -
  let ?s1 = "s\<lparr>results := results s @ [cr]\<rparr>"
  have st: "s' = ?s1 \<or> s' = record_effect (Emit ''page'' (Page_payload cr)) ?s1"
    using assms
    by (auto simp: on_fulfilled_def Let_def split: sum.splits prod.splits if_splits
        dest!: emit_state)
  have qu: "\<forall>q'. x = Inr q' \<longrightarrow>
          (\<exists>new. q' = q @ new
             \<and> (\<forall>n \<in> set new. item_depth n = item_depth it + 1
                   \<and> item_depth it < maxDepth opts
                   \<and> item_parent n = Some (url cr)
                   \<and> item_url n \<notin> visitedUrls s \<and> item_url n \<notin> failedUrls s))"
  proof (intro allI impI)
    fix q' assume x: "x = Inr q'"
    show "\<exists>new. q' = q @ new
             \<and> (\<forall>n \<in> set new. item_depth n = item_depth it + 1
                   \<and> item_depth it < maxDepth opts
                   \<and> item_parent n = Some (url cr)
                   \<and> item_url n \<notin> visitedUrls s \<and> item_url n \<notin> failedUrls s)"
    proof (cases "item_depth it < maxDepth opts")
      case False
      with assms x have "q' = q"
        by (auto simp: on_fulfilled_def Let_def split: sum.splits prod.splits)
      then show ?thesis
        by (intro exI [of _ "[]"]) simp
    next
      case True
      with assms x obtain newUrls where
        "q' = enqueue ?s1 q newUrls (item_depth it + 1) (url cr)"
        by (auto simp: on_fulfilled_def Let_def split: sum.splits prod.splits)
      with True show ?thesis
        by (intro exI [of _ "map (\<lambda>u. \<lparr>item_url = u, item_depth = item_depth it + 1,
              item_parent = Some (url cr)\<rparr>)
            (filter (\<lambda>u. u \<notin> visitedUrls ?s1 \<and> u \<notin> failedUrls ?s1) newUrls)"])
          (auto simp: enqueue_def)
    qed
  qed
  from st qu show ?thesis
    by auto
qed

lemma on_rejected_effect:
  assumes "on_rejected w reason it s = (x, s')"
  shows "results s' = results s \<and> failedUrls s' = insert (item_url it) (failedUrls s)
    \<and> visitedUrls s' = visitedUrls s
    \<and> trace s' = trace s @ [Emit ''error'' (Page_error (item_url it) reason)]"
  using assms
  by (auto simp: on_rejected_def Let_def split: sum.splits prod.splits dest!: emit_state)

lemma process_results_depth:
  "\<forall>(res, it) \<in> set zs. item_depth it \<le> maxDepth opts
        \<and> (\<forall>pg. res = Inr (Some pg) \<longrightarrow> depth pg = item_depth it)
    \<Longrightarrow> \<forall>it \<in> set q. item_depth it \<le> maxDepth opts
    \<Longrightarrow> \<forall>pg \<in> set (results s). depth pg \<le> maxDepth opts
    \<Longrightarrow> process_results w opts zs q s = (x, s')
    \<Longrightarrow> (\<forall>pg \<in> set (results s'). depth pg \<le> maxDepth opts)
        \<and> (\<forall>q'. x = Inr q' \<longrightarrow> (\<forall>it \<in> set q'. item_depth it \<le> maxDepth opts))"
proof (induction w opts zs q s rule: process_results.induct)
  case (1 w opts queue s)
  then show ?case by auto
next
  case (2 w opts crawlResult it rest queue s)
  obtain y s1 where f: "on_fulfilled w opts crawlResult it queue s = (y, s1)"
    by (cases "on_fulfilled w opts crawlResult it queue s")
  from "2.prems"(1) have dp: "depth crawlResult = item_depth it" "item_depth it \<le> maxDepth opts"
    by auto
  from on_fulfilled_effect [OF f] dp "2.prems"(3)
  have r1: "\<forall>pg \<in> set (results s1). depth pg \<le> maxDepth opts"
    by auto
  show ?case
  proof (cases y)
    case (Inl e)
    with "2.prems"(4) f r1 show ?thesis by auto
  next
    case (Inr queue1)
    with on_fulfilled_effect [OF f] obtain new where
      new: "queue1 = queue @ new"
        "\<forall>n \<in> set new. item_depth n = item_depth it + 1 \<and> item_depth it < maxDepth opts"
      by blast
    from new "2.prems"(2)
    have q1: "\<forall>it \<in> set queue1. item_depth it \<le> maxDepth opts"
      by auto
    from Inr "2.prems"(4) f have p: "process_results w opts rest queue1 s1 = (x, s')"
      by simp
    from "2.prems"(1) have z: "\<forall>(res, it) \<in> set rest. item_depth it \<le> maxDepth opts
        \<and> (\<forall>pg. res = Inr (Some pg) \<longrightarrow> depth pg = item_depth it)"
      by simp
    from "2.IH" [OF f [symmetric] Inr z q1 r1 p] show ?thesis .
  qed
next
  case (3 w opts reason it rest queue s)
  obtain y s1 where f: "on_rejected w reason it s = (y, s1)"
    by (cases "on_rejected w reason it s")
  from on_rejected_effect [OF f] "3.prems"(3)
  have r1: "\<forall>pg \<in> set (results s1). depth pg \<le> maxDepth opts"
    by simp
  show ?case
  proof (cases y)
    case (Inl e)
    with "3.prems"(4) f r1 show ?thesis by auto
  next
    case (Inr u)
    with "3.prems"(4) f have p: "process_results w opts rest queue s1 = (x, s')"
      by simp
    from "3.prems"(1) have z: "\<forall>(res, it) \<in> set rest. item_depth it \<le> maxDepth opts
        \<and> (\<forall>pg. res = Inr (Some pg) \<longrightarrow> depth pg = item_depth it)"
      by simp
    from "3.IH" [OF f [symmetric] Inr z "3.prems"(2) r1 p] show ?thesis .
  qed
next
  case (4 w opts it rest queue s)
  from "4.prems"(1) have z: "\<forall>(res, it) \<in> set rest. item_depth it \<le> maxDepth opts
        \<and> (\<forall>pg. res = Inr (Some pg) \<longrightarrow> depth pg = item_depth it)"
    by simp
  from "4.prems"(4) have "process_results w opts rest queue s = (x, s')"
    by simp
  from "4.IH" [OF z "4.prems"(2,3) this] show ?case .
qed

lemma crawl_batch_depth:
  assumes q: "\<forall>it \<in> set queue. item_depth it \<le> maxDepth opts"
    and r: "\<forall>pg \<in> set (results s). depth pg \<le> maxDepth opts"
    and b: "crawl_batch w opts queue s = (x, s')"
  shows "(\<forall>pg \<in> set (results s'). depth pg \<le> maxDepth opts)
    \<and> (\<forall>q'. x = Inr q' \<longrightarrow> (\<forall>it \<in> set q'. item_depth it \<le> maxDepth opts))"
proof -
  let ?n = "nat (maxConcurrency opts)"
  obtain rs s1 where d: "dispatch w opts (take ?n queue) s = (rs, s1)"
    by (cases "dispatch w opts (take ?n queue) s")
  obtain y s2 where p: "process_results w opts (zip rs (take ?n queue)) (drop ?n queue) s1 = (y, s2)"
    by (cases "process_results w opts (zip rs (take ?n queue)) (drop ?n queue) s1")
  have z: "\<forall>(res, it) \<in> set (zip rs (take ?n queue)). item_depth it \<le> maxDepth opts
        \<and> (\<forall>pg. res = Inr (Some pg) \<longrightarrow> depth pg = item_depth it)"
  proof (intro ballI, clarify)
    fix res it
    assume m: "(res, it) \<in> set (zip rs (take ?n queue))"
    then have "it \<in> set queue"
      by (meson in_set_takeD set_zip_rightD)
    with q have "item_depth it \<le> maxDepth opts"
      by simp
    moreover from dispatch_pages [OF d] m
    have "\<forall>pg. res = Inr (Some pg) \<longrightarrow> depth pg = item_depth it"
      by blast
    ultimately show "item_depth it \<le> maxDepth opts
        \<and> (\<forall>pg. res = Inr (Some pg) \<longrightarrow> depth pg = item_depth it)"
      by simp
  qed
  from q have q1: "\<forall>it \<in> set (drop ?n queue). item_depth it \<le> maxDepth opts"
    by (auto dest: in_set_dropD)
  from dispatch_results [OF d] r have r1: "\<forall>pg \<in> set (results s1). depth pg \<le> maxDepth opts"
    by simp
  from process_results_depth [OF z q1 r1 p]
  have post: "(\<forall>pg \<in> set (results s2). depth pg \<le> maxDepth opts)
        \<and> (\<forall>q'. y = Inr q' \<longrightarrow> (\<forall>it \<in> set q'. item_depth it \<le> maxDepth opts))" .
  from b d p have "x = y \<and> results s' = results s2"
    by (auto simp: crawl_batch_def Let_def split: sum.splits if_splits)
  with post show ?thesis
    by simp
qed

lemma crawl_catch_state:
  assumes "crawl_catch w e t = (y, t')"
  shows "t' = record_effect (Emit ''error'' (Fatal e)) t"
proof -
  obtain r t1 where em: "emit w ''error'' (Fatal e) t = (r, t1)"
    by (cases "emit w ''error'' (Fatal e) t")
  from assms em have "t' = t1"
    by (cases r) (simp_all add: crawl_catch_def)
  with emit_state [OF em] show ?thesis
    by simp
qed

lemma crawl_finish_fields:
  assumes "crawl_finish w st t = (y, t')"
  shows "results t' = results t \<and> failedUrls t' = failedUrls t \<and> visitedUrls t' = visitedUrls t"
proof -
  let ?t1 = "record_effect DateNow t"
  let ?summ = "summary_of ?t1 st (dateNow w (length (trace t)))"
  obtain r t2 where em: "emit w ''complete'' (Complete (results ?t1) ?summ) ?t1 = (r, t2)"
    by (cases "emit w ''complete'' (Complete (results ?t1) ?summ) ?t1")
  from emit_state [OF em] have t2: "results t2 = results t" "failedUrls t2 = failedUrls t"
    "visitedUrls t2 = visitedUrls t"
    by simp_all
  show ?thesis
  proof (cases r)
    case (Inl e)
    with assms em have "crawl_catch w e t2 = (y, t')"
      by (simp add: crawl_finish_def Date_now_def Let_def)
    from crawl_catch_state [OF this] t2 show ?thesis
      by simp
  next
    case (Inr b)
    with assms em have "t' = t2"
      by (simp add: crawl_finish_def Date_now_def Let_def)
    with t2 show ?thesis
      by simp
  qed
qed

lemma crawl_results:
  assumes "crawl w opts startUrl s = Some (r, s')"
  shows "\<exists>x s1. crawl_loop w opts [\<lparr>item_url = startUrl, item_depth = 0, item_parent = None\<rparr>]
        (record_effect DateNow s) = Some (x, s1)
    \<and> results s' = results s1 \<and> failedUrls s' = failedUrls s1
    \<and> (isl x \<longrightarrow> isl r)"
proof -
  from assms obtain x s1 where
    l: "crawl_loop w opts [\<lparr>item_url = startUrl, item_depth = 0, item_parent = None\<rparr>]
        (record_effect DateNow s) = Some (x, s1)"
    by (auto simp: crawl_def Date_now_def split: option.splits)
  from assms l have "(\<exists>e. x = Inl e \<and> crawl_catch w e s1 = (r, s')) \<or> (\<not> isl x \<and> (\<exists>st. crawl_finish w st s1 = (r, s')))"
    by (auto simp: crawl_def Date_now_def split: sum.splits)
  then have "results s' = results s1 \<and> failedUrls s' = failedUrls s1 \<and> (isl x \<longrightarrow> isl r)"
  proof
    assume "\<exists>e. x = Inl e \<and> crawl_catch w e s1 = (r, s')"
    then obtain e where "crawl_catch w e s1 = (r, s')"
      by blast
    from crawl_catch_state [OF this] crawl_catch_Inl [OF this] show ?thesis
      by simp
  next
    assume "\<not> isl x \<and> (\<exists>st. crawl_finish w st s1 = (r, s'))"
    then obtain st where "\<not> isl x" "crawl_finish w st s1 = (r, s')"
      by blast
    from crawl_finish_fields [OF this(2)] this(1) show ?thesis
      by simp
  qed
  with l show ?thesis
    by blast
qed

text \<open>
  C3. Let \<open>maxDepth\<close> be at least 0, and let the pages that the instance holds when
  the run starts be of depth at most \<open>maxDepth\<close> (a new instance holds none). Then
  every page of \<open>results\<close> after the run, so every page that \<open>crawl\<close> returns, has a
  depth of at most \<open>maxDepth\<close>. Where a page is processed, the items appended to the
  queue have the depth of its item plus one, and there are some only when the depth
  of its item is less than \<open>maxDepth\<close>.
\<close>

theorem depth_bound:
  assumes "crawl w opts startUrl s = Some (r, s')"
    and "0 \<le> maxDepth opts"
    and "\<forall>pg \<in> set (results s). depth pg \<le> maxDepth opts"
  shows "(\<forall>pg \<in> set (results s'). depth pg \<le> maxDepth opts)
    \<and> (\<forall>out. r = Inr out \<longrightarrow> (\<forall>pg \<in> set (out_results out). depth pg \<le> maxDepth opts))
    \<and> (\<forall>cr it q t q' t'. on_fulfilled w opts cr it q t = (Inr q', t') \<longrightarrow>
          (\<exists>new. q' = q @ new
             \<and> (\<forall>n \<in> set new. item_depth n = item_depth it + 1
                   \<and> item_depth it < maxDepth opts)))"
proof -
  define I where "I = (\<lambda>(q :: item list) (t :: crawler). (\<forall>it \<in> set q. item_depth it \<le> maxDepth opts)
      \<and> (\<forall>pg \<in> set (results t). depth pg \<le> maxDepth opts))"
  define E where "E = (\<lambda>t :: crawler. \<forall>pg \<in> set (results t). depth pg \<le> maxDepth opts)"
  from crawl_results [OF assms(1)] obtain x s1 where
    l: "crawl_loop w opts [\<lparr>item_url = startUrl, item_depth = 0, item_parent = None\<rparr>]
        (record_effect DateNow s) = Some (x, s1)" and
    rs: "results s' = results s1"
    by blast
  have init: "I [\<lparr>item_url = startUrl, item_depth = 0, item_parent = None\<rparr>] (record_effect DateNow s)"
    using assms(2,3) by (simp add: I_def)
  have step: "\<And>q t y t1. I q t \<Longrightarrow> 0 < length q \<Longrightarrow> int (length (results t)) < maxPages opts
      \<Longrightarrow> crawl_batch w opts q t = (y, t1) \<Longrightarrow> (case y of Inl e \<Rightarrow> E t1 | Inr q1 \<Rightarrow> I q1 t1)"
  proof -
    fix q t y t1
    assume i: "I q t" and b: "crawl_batch w opts q t = (y, t1)"
    from i have i1: "\<forall>it \<in> set q. item_depth it \<le> maxDepth opts"
      and i2: "\<forall>pg \<in> set (results t). depth pg \<le> maxDepth opts"
      by (simp_all add: I_def)
    from crawl_batch_depth [OF i1 i2 b]
    show "case y of Inl e \<Rightarrow> E t1 | Inr q1 \<Rightarrow> I q1 t1"
      by (cases y) (simp_all add: I_def E_def)
  qed
  note R = crawl_loop_rule [where I = I and E = E, OF l init step]
  have "E s1"
  proof (cases x)
    case (Inl e)
    from R show ?thesis
      unfolding Inl by (simp only: sum.case)
  next
    case (Inr u)
    from R have "\<exists>q'. I q' s1 \<and> \<not> (0 < length q' \<and> int (length (results s1)) < maxPages opts)"
      unfolding Inr by (simp only: sum.case)
    then obtain q' where "I q' s1"
      by (elim exE conjE)
    then show ?thesis
      by (simp add: I_def E_def)
  qed
  then have "\<forall>pg \<in> set (results s1). depth pg \<le> maxDepth opts"
    by (simp add: E_def)
  with rs have a: "\<forall>pg \<in> set (results s'). depth pg \<le> maxDepth opts"
    by simp
  have b: "\<forall>out. r = Inr out \<longrightarrow> (\<forall>pg \<in> set (out_results out). depth pg \<le> maxDepth opts)"
  proof (intro allI impI)
    fix out assume "r = Inr out"
    with assms(1) have "crawl w opts startUrl s = Some (Inr out, s')"
      by simp
    from crawl_Inr_results [OF this] a
    show "\<forall>pg \<in> set (out_results out). depth pg \<le> maxDepth opts"
      by simp
  qed
  have c: "\<forall>cr it q t q' t'. on_fulfilled w opts cr it q t = (Inr q', t') \<longrightarrow>
          (\<exists>new. q' = q @ new
             \<and> (\<forall>n \<in> set new. item_depth n = item_depth it + 1
                   \<and> item_depth it < maxDepth opts))"
  proof (intro allI impI)
    fix cr it q t q' t'
    assume "on_fulfilled w opts cr it q t = (Inr q', t')"
    from on_fulfilled_effect [OF this]
    have "\<forall>q''. (Inr q' :: error + item list) = Inr q'' \<longrightarrow>
          (\<exists>new. q'' = q @ new
             \<and> (\<forall>n \<in> set new. item_depth n = item_depth it + 1
                   \<and> item_depth it < maxDepth opts
                   \<and> item_parent n = Some (url cr)
                   \<and> item_url n \<notin> visitedUrls t \<and> item_url n \<notin> failedUrls t))"
      by (elim conjE)
    then obtain new where n: "q' = q @ new"
      "\<forall>n \<in> set new. item_depth n = item_depth it + 1
                   \<and> item_depth it < maxDepth opts
                   \<and> item_parent n = Some (url cr)
                   \<and> item_url n \<notin> visitedUrls t \<and> item_url n \<notin> failedUrls t"
      by auto
    from n(2) have "\<forall>n \<in> set new. item_depth n = item_depth it + 1 \<and> item_depth it < maxDepth opts"
      by simp
    with n(1) show "\<exists>new. q' = q @ new
             \<and> (\<forall>n \<in> set new. item_depth n = item_depth it + 1
                   \<and> item_depth it < maxDepth opts)"
      by (intro exI [of _ new] conjI)
  qed
  from a b c show ?thesis
    by (intro conjI)
qed

theorem depth_bound_witness:
  "(\<exists>s'. crawl site defaults ''http://a.test/'' new_WebCrawler = Some (Inr site_out, s'))
   \<and> 0 \<le> maxDepth defaults
   \<and> results new_WebCrawler = []
   \<and> maxDepth defaults = 3
   \<and> map depth (out_results site_out) = [0, 1, 1, 1]
   \<and> list_all (\<lambda>pg. depth pg \<le> maxDepth defaults) (out_results site_out)"
proof -
  from site_run obtain s' where
    run: "crawl site defaults ''http://a.test/'' new_WebCrawler = Some (Inr site_out, s')" ..
  have h2: "0 \<le> maxDepth defaults" and m: "maxDepth defaults = 3"
    by (simp_all add: defaults_def)
  have e: "results new_WebCrawler = []"
    by (simp add: new_WebCrawler_def)
  then have h3: "\<forall>pg \<in> set (results new_WebCrawler). depth pg \<le> maxDepth defaults"
    by simp
  note T = depth_bound [OF run h2 h3]
  from T have "\<forall>out. (Inr site_out :: error + crawl_output) = Inr out \<longrightarrow>
      (\<forall>pg \<in> set (out_results out). depth pg \<le> maxDepth defaults)"
    by (elim conjE)
  then have "\<forall>pg \<in> set (out_results site_out). depth pg \<le> maxDepth defaults"
    by (elim allE [of _ site_out] impE) simp_all
  then have l: "list_all (\<lambda>pg. depth pg \<le> maxDepth defaults) (out_results site_out)"
    by (simp only: list_all_iff)
  have d: "map depth (out_results site_out) = [0, 1, 1, 1]"
    by (simp add: site_out_def home_def leaf_def)
  from run have "\<exists>s'. crawl site defaults ''http://a.test/'' new_WebCrawler = Some (Inr site_out, s')" ..
  with h2 e m d l show ?thesis
    by (intro conjI)
qed

subsection \<open>The bound on the number of pages\<close>

text \<open>
  C1. On the small site with \<open>maxPages = 2\<close> and \<open>maxConcurrency = 5\<close>, the first batch is
  the seed and leaves one page in \<open>results\<close>; the second batch is dispatched, since
  \<open>1 < 2\<close>, and it has the four links of the seed, three of which answer: the run ends
  with four pages in \<open>results\<close>, and returns them.
\<close>

theorem maxPages_exceeded:
  "\<exists>out s'. crawl site two_pages ''http://a.test/'' new_WebCrawler = Some (Inr out, s')
     \<and> maxPages two_pages = 2
     \<and> maxConcurrency two_pages = 5
     \<and> length (results s') = 4
     \<and> length (out_results out) = 4
     \<and> totalPages (out_summary out) = 4"
  by (simp add: unfold_all unfold_site two_pages_def)

subsection \<open>A page failure without a listener\<close>

text \<open>
  C7. On the small site, when no listener is registered, the page \<^verbatim>\<open>/admin/z\<close>
  fails for good after its four requests; it is added to \<open>failedUrls\<close>, and the
  \<^verbatim>\<open>emit('error', ...)\<close> of line 104 throws, being an \<^verbatim>\<open>'error'\<close> event without a
  listener; the \<^verbatim>\<open>catch\<close> of line 127 emits \<^verbatim>\<open>'error'\<close> again, which throws again, and
  \<open>crawl\<close> raises: no summary, and the page \<^verbatim>\<open>/w\<close> of the same batch, which was
  fetched, is in no result.
\<close>

theorem unheard_failure_raises:
  "\<exists>s'. crawl site_unheard defaults ''http://a.test/'' new_WebCrawler
          = Some (Inl ERR_UNHANDLED_ERROR, s')
     \<and> listeners site_unheard ''error'' = []
     \<and> failedUrls s' = {''http://a.test/admin/z''}
     \<and> map url (results s') = [''http://a.test/'', ''http://a.test/x'', ''http://a.test/y'']
     \<and> filter (\<lambda>e. case e of Emit name p \<Rightarrow> name = ''error'' | _ \<Rightarrow> False) (trace s')
         = [Emit ''error'' (Page_error ''http://a.test/admin/z'' (Error ''ECONNREFUSED'')),
            Emit ''error'' (Fatal ERR_UNHANDLED_ERROR)]"
  by (simp add: unfold_all unfold_site site_unheard_def)

subsection \<open>What the loop does about \<open>maxPages\<close>, and its termination\<close>

lemma crawl_loop_stops:
  "\<not> int (length (results s)) < maxPages opts \<Longrightarrow> crawl_loop w opts queue s = Some (Inr (), s)"
  by (subst crawl_loop.simps) simp

lemma crawl_loop_empty: "crawl_loop w opts [] s = Some (Inr (), s)"
  by (subst crawl_loop.simps) simp

lemma process_results_progress:
  "process_results w opts zs q s = (x, s') \<Longrightarrow>
   length (results s) \<le> length (results s')
   \<and> length (results s') \<le> length (results s) + length zs
   \<and> (length (results s') = length (results s) \<longrightarrow> (\<forall>q'. x = Inr q' \<longrightarrow> q' = q))"
proof (induction w opts zs q s rule: process_results.induct)
  case (1 w opts queue s)
  then show ?case by auto
next
  case (2 w opts crawlResult it rest queue s)
  obtain y s1 where f: "on_fulfilled w opts crawlResult it queue s = (y, s1)"
    by (cases "on_fulfilled w opts crawlResult it queue s")
  from on_fulfilled_effect [OF f] have l1: "length (results s1) = length (results s) + 1"
    by simp
  show ?case
  proof (cases y)
    case (Inl e)
    with "2.prems" f l1 show ?thesis by auto
  next
    case (Inr queue1)
    with "2.prems" f have "process_results w opts rest queue1 s1 = (x, s')"
      by simp
    from "2.IH" [OF f [symmetric] Inr this] l1 show ?thesis
      by simp
  qed
next
  case (3 w opts reason it rest queue s)
  obtain y s1 where f: "on_rejected w reason it s = (y, s1)"
    by (cases "on_rejected w reason it s")
  from on_rejected_effect [OF f] have l1: "results s1 = results s"
    by simp
  show ?case
  proof (cases y)
    case (Inl e)
    with "3.prems" f l1 show ?thesis by auto
  next
    case (Inr u)
    with "3.prems" f have "process_results w opts rest queue s1 = (x, s')"
      by simp
    from "3.IH" [OF f [symmetric] Inr this] l1 show ?thesis
      by simp
  qed
next
  case (4 w opts it rest queue s)
  from "4.prems" have "process_results w opts rest queue s = (x, s')"
    by simp
  from "4.IH" [OF this] show ?case
    by simp
qed

lemma crawl_batch_progress:
  assumes "crawl_batch w opts queue s = (x, s')"
  shows "length (results s) \<le> length (results s')
    \<and> length (results s') \<le> length (results s) + nat (maxConcurrency opts)
    \<and> (length (results s') = length (results s) \<longrightarrow>
          (\<forall>q'. x = Inr q' \<longrightarrow> q' = drop (nat (maxConcurrency opts)) queue))"
proof -
  let ?n = "nat (maxConcurrency opts)"
  obtain rs s1 where d: "dispatch w opts (take ?n queue) s = (rs, s1)"
    by (cases "dispatch w opts (take ?n queue) s")
  obtain y s2 where p: "process_results w opts (zip rs (take ?n queue)) (drop ?n queue) s1 = (y, s2)"
    by (cases "process_results w opts (zip rs (take ?n queue)) (drop ?n queue) s1")
  from dispatch_results [OF d] have r1: "results s1 = results s"
    by simp
  have "length (zip rs (take ?n queue)) \<le> ?n"
    by simp
  with process_results_progress [OF p] r1
  have post: "length (results s) \<le> length (results s2)
    \<and> length (results s2) \<le> length (results s) + ?n
    \<and> (length (results s2) = length (results s) \<longrightarrow> (\<forall>q'. y = Inr q' \<longrightarrow> q' = drop ?n queue))"
    by simp
  from assms d p have "x = y \<and> results s' = results s2"
    by (auto simp: crawl_batch_def Let_def split: sum.splits if_splits)
  with post show ?thesis
    by simp
qed

text \<open>
  The number of pages after a run: what the instance held before, or at most
  \<open>maxPages - 1\<close> at the start of the last batch and one more for each of its items.
\<close>

lemma crawl_pages_bound:
  assumes "crawl w opts startUrl s = Some (r, s')"
  shows "int (length (results s'))
    \<le> max (int (length (results s))) (maxPages opts - 1 + int (nat (maxConcurrency opts)))"
proof -
  define B where
    "B = max (int (length (results s))) (maxPages opts - 1 + int (nat (maxConcurrency opts)))"
  define I where "I = (\<lambda>(q :: item list) (t :: crawler). int (length (results t)) \<le> B)"
  define E where "E = (\<lambda>t :: crawler. int (length (results t)) \<le> B)"
  from crawl_results [OF assms] obtain x s1 where
    l: "crawl_loop w opts [\<lparr>item_url = startUrl, item_depth = 0, item_parent = None\<rparr>]
        (record_effect DateNow s) = Some (x, s1)" and
    rs: "results s' = results s1"
    by blast
  have init: "I [\<lparr>item_url = startUrl, item_depth = 0, item_parent = None\<rparr>] (record_effect DateNow s)"
    by (simp add: I_def B_def)
  have step: "\<And>q t y t1. I q t \<Longrightarrow> 0 < length q \<Longrightarrow> int (length (results t)) < maxPages opts
      \<Longrightarrow> crawl_batch w opts q t = (y, t1) \<Longrightarrow> (case y of Inl e \<Rightarrow> E t1 | Inr q1 \<Rightarrow> I q1 t1)"
  proof -
    fix q t y t1
    assume lt: "int (length (results t)) < maxPages opts" and b: "crawl_batch w opts q t = (y, t1)"
    from crawl_batch_progress [OF b]
    have "int (length (results t1)) \<le> int (length (results t)) + int (nat (maxConcurrency opts))"
      by linarith
    with lt have "int (length (results t1)) \<le> B"
      unfolding B_def by linarith
    then show "case y of Inl e \<Rightarrow> E t1 | Inr q1 \<Rightarrow> I q1 t1"
      by (cases y) (simp_all add: I_def E_def)
  qed
  note R = crawl_loop_rule [where I = I and E = E, OF l init step]
  have "E s1"
  proof (cases x)
    case (Inl e)
    from R show ?thesis
      unfolding Inl by (simp only: sum.case)
  next
    case (Inr u)
    from R have "\<exists>q'. I q' s1 \<and> \<not> (0 < length q' \<and> int (length (results s1)) < maxPages opts)"
      unfolding Inr by (simp only: sum.case)
    then obtain q' where "I q' s1"
      by (elim exE conjE)
    then show ?thesis
      by (simp add: I_def E_def)
  qed
  with rs show ?thesis
    by (simp add: E_def B_def)
qed

text \<open>
  The loop ends when \<open>maxConcurrency\<close> is positive, which the constructor ensures
  (\<^verbatim>\<open>pLimit\<close> at line 33 throws otherwise): a round adds a page, of which there can be
  \<open>maxPages\<close> at the start of a round, or else leaves the queue shorter.
\<close>

lemma crawl_loop_terminates:
  assumes mc: "0 < maxConcurrency opts"
  shows "\<exists>r. crawl_loop w opts queue s = Some r"
proof -
  have "\<forall>(q :: item list) (t :: crawler).
      (nat (maxPages opts - int (length (results t))), length q) = m
      \<longrightarrow> (\<exists>r. crawl_loop w opts q t = Some r)" for m
  proof (induction m rule: wf_induct_rule [OF wf_lex_prod [OF wf_less_than wf_less_than]])
    case (1 m)
    show ?case
    proof (intro allI impI)
      fix q :: "item list" and t :: crawler
      assume m: "(nat (maxPages opts - int (length (results t))), length q) = m"
      show "\<exists>r. crawl_loop w opts q t = Some r"
      proof (cases "0 < length q \<and> int (length (results t)) < maxPages opts")
        case False
        then have "crawl_loop w opts q t = Some (Inr (), t)"
          by (subst crawl_loop.simps) auto
        then show ?thesis by blast
      next
        case True
        obtain x t1 where b: "crawl_batch w opts q t = (x, t1)"
          by (cases "crawl_batch w opts q t")
        show ?thesis
        proof (cases x)
          case (Inl e)
          with True b have "crawl_loop w opts q t = Some (Inl e, t1)"
            by (subst crawl_loop.simps) simp
          then show ?thesis by blast
        next
          case (Inr q1)
          with True b have eq: "crawl_loop w opts q t = crawl_loop w opts q1 t1"
            by (subst crawl_loop.simps) simp
          from crawl_batch_progress [OF b] Inr
          have pr: "length (results t) \<le> length (results t1)"
            "length (results t1) = length (results t) \<longrightarrow> q1 = drop (nat (maxConcurrency opts)) q"
            by simp_all
          have "((nat (maxPages opts - int (length (results t1))), length q1), m)
              \<in> less_than <*lex*> less_than"
          proof (cases "length (results t1) = length (results t)")
            case True
            with pr(2) have "q1 = drop (nat (maxConcurrency opts)) q"
              by simp
            with mc \<open>0 < length q \<and> int (length (results t)) < maxPages opts\<close>
            have "length q1 < length q"
              by simp
            with True m show ?thesis
              by auto
          next
            case False
            with pr(1) have "length (results t) < length (results t1)"
              by simp
            with \<open>0 < length q \<and> int (length (results t)) < maxPages opts\<close>
            have "nat (maxPages opts - int (length (results t1)))
                < nat (maxPages opts - int (length (results t)))"
              by simp
            with m show ?thesis
              by auto
          qed
          from "1.IH" [OF this] have "\<exists>r. crawl_loop w opts q1 t1 = Some r"
            by simp
          with eq show ?thesis
            by simp
        qed
      qed
    qed
  qed
  then show ?thesis
    by simp
qed

lemma crawl_terminates:
  assumes "0 < maxConcurrency opts"
  shows "\<exists>r s'. crawl w opts startUrl s = Some (r, s')"
proof -
  from crawl_loop_terminates [OF assms] obtain x s1 where
    "crawl_loop w opts [\<lparr>item_url = startUrl, item_depth = 0, item_parent = None\<rparr>]
        (record_effect DateNow s) = Some (x, s1)"
    by (metis surj_pair)
  then show ?thesis
    by (cases x) (auto simp: crawl_def Date_now_def intro: prod.exhaust)
qed

subsection \<open>Page failures when the listeners and the filter do not throw\<close>

lemma call_listeners_quiet:
  "\<forall>l \<in> set ls. \<forall>p. l p = None \<Longrightarrow> call_listeners ls p = Inr True"
  by (induction ls) simp_all

lemma emit_heard:
  assumes "\<forall>name. \<forall>l \<in> set (listeners w name). \<forall>p. l p = None"
    and "listeners w ''error'' \<noteq> []"
  shows "\<exists>b. emit w name p s = (Inr b, record_effect (Emit name p) s)"
proof (cases "listeners w name")
  case Nil
  with assms(2) have "name \<noteq> ''error''"
    by auto
  with Nil show ?thesis
    by (auto simp: emit_def Let_def)
next
  case (Cons l ls)
  from assms(1) have "call_listeners (listeners w name) p = Inr True"
    by (intro call_listeners_quiet) simp
  with Cons show ?thesis
    by (auto simp: emit_def Let_def)
qed

lemma some_pattern_total:
  "\<forall>pattern u. \<not> isl (regExpTest w pattern u) \<Longrightarrow> \<not> isl (some_pattern w ps u)"
proof (induction ps)
  case Nil
  then show ?case by simp
next
  case (Cons pattern ps)
  from Cons.prems obtain b where "regExpTest w pattern u = Inr b"
    by (metis sum.collapse(2))
  with Cons show ?case
    by simp
qed

lemma keeps_total:
  assumes "\<forall>u. \<not> isl (urlParse w u)" and "\<forall>pattern u. \<not> isl (regExpTest w pattern u)"
  shows "\<not> isl (keeps w opts baseUrlObj u)"
proof -
  from assms(1) obtain urlObj where p: "urlParse w u = Inr urlObj"
    by (metis sum.collapse(2))
  from some_pattern_total [OF assms(2)] obtain ex where
    e: "some_pattern w (excludePatterns opts) u = Inr ex"
    by (metis sum.collapse(2))
  from some_pattern_total [OF assms(2)] obtain inc where
    i: "some_pattern w (includePatterns opts) u = Inr inc"
    by (metis sum.collapse(2))
  show ?thesis
    by (simp add: keeps_def p e i)
qed

lemma filter_links_total:
  assumes "\<forall>u. \<not> isl (urlParse w u)" and "\<forall>pattern u. \<not> isl (regExpTest w pattern u)"
  shows "\<not> isl (filter_links w opts baseUrlObj ls acc)"
proof (induction ls arbitrary: acc)
  case Nil
  then show ?case by simp
next
  case (Cons l ls)
  from keeps_total [OF assms] obtain k where "keeps w opts baseUrlObj (link_url l) = Inr k"
    by (metis sum.collapse(2))
  with Cons show ?case
    by simp
qed

lemma extractAndFilterUrls_total:
  assumes "\<forall>u. \<not> isl (urlParse w u)" and "\<forall>pattern u. \<not> isl (regExpTest w pattern u)"
  shows "\<not> isl (extractAndFilterUrls w opts ls baseUrl d)"
proof -
  from assms(1) obtain baseUrlObj where p: "urlParse w baseUrl = Inr baseUrlObj"
    by (metis sum.collapse(2))
  from filter_links_total [OF assms] obtain fs where
    "filter_links w opts baseUrlObj ls [] = Inr fs"
    by (metis sum.collapse(2))
  with p show ?thesis
    by (simp add: extractAndFilterUrls_def)
qed

lemma process_results_no_raise:
  assumes h: "\<forall>name. \<forall>l \<in> set (listeners w name). \<forall>p. l p = None"
      "listeners w ''error'' \<noteq> []"
    and t: "\<forall>u. \<not> isl (urlParse w u)" "\<forall>pattern u. \<not> isl (regExpTest w pattern u)"
  shows "\<not> isl (fst (process_results w opts zs q s))"
  using assms
proof (induction w opts zs q s rule: process_results.induct)
  case (1 w opts queue s)
  then show ?case by simp
next
  case (2 w opts crawlResult it rest queue s)
  let ?s1 = "s\<lparr>results := results s @ [crawlResult]\<rparr>"
  from emit_heard [OF "2.prems"(1,2)] obtain b where
    e: "emit w ''page'' (Page_payload crawlResult) ?s1
      = (Inr b, record_effect (Emit ''page'' (Page_payload crawlResult)) ?s1)"
    by blast
  from extractAndFilterUrls_total [OF "2.prems"(3,4)] obtain us where
    f: "extractAndFilterUrls w opts (links crawlResult) (url crawlResult) (item_depth it + 1) = Inr us"
    by (metis sum.collapse(2))
  obtain queue1 where
    o: "on_fulfilled w opts crawlResult it queue s
      = (Inr queue1, record_effect (Emit ''page'' (Page_payload crawlResult)) ?s1)"
    by (cases "item_depth it < maxDepth opts") (simp_all add: on_fulfilled_def Let_def e f)
  from "2.IH" [OF o [symmetric] refl "2.prems"] o show ?case
    by simp
next
  case (3 w opts reason it rest queue s)
  let ?s1 = "s\<lparr>failedUrls := insert (item_url it) (failedUrls s)\<rparr>"
  from emit_heard [OF "3.prems"(1,2)] obtain b where
    e: "emit w ''error'' (Page_error (item_url it) reason) ?s1
      = (Inr b, record_effect (Emit ''error'' (Page_error (item_url it) reason)) ?s1)"
    by blast
  have o: "on_rejected w reason it s
      = (Inr (), record_effect (Emit ''error'' (Page_error (item_url it) reason)) ?s1)"
    by (simp add: on_rejected_def Let_def e)
  from "3.IH" [OF o [symmetric] refl "3.prems"] o show ?case
    by simp
next
  case (4 w opts it rest queue s)
  from "4.IH" [OF "4.prems"] show ?case
    by simp
qed

lemma crawl_batch_no_raise:
  assumes "\<forall>name. \<forall>l \<in> set (listeners w name). \<forall>p. l p = None"
      "listeners w ''error'' \<noteq> []"
      "\<forall>u. \<not> isl (urlParse w u)" "\<forall>pattern u. \<not> isl (regExpTest w pattern u)"
  shows "\<not> isl (fst (crawl_batch w opts queue s))"
proof -
  let ?n = "nat (maxConcurrency opts)"
  obtain rs s1 where d: "dispatch w opts (take ?n queue) s = (rs, s1)"
    by (cases "dispatch w opts (take ?n queue) s")
  obtain y s2 where p: "process_results w opts (zip rs (take ?n queue)) (drop ?n queue) s1 = (y, s2)"
    by (cases "process_results w opts (zip rs (take ?n queue)) (drop ?n queue) s1")
  from process_results_no_raise [OF assms, of opts "zip rs (take ?n queue)" "drop ?n queue" s1] p
  obtain q2 where "y = Inr q2"
    by (cases y) simp_all
  with d p show ?thesis
    by (simp add: crawl_batch_def Let_def)
qed

text \<open>
  When every event has listeners that return, \<^verbatim>\<open>'error'\<close> at least one, and when
  url-parse and \<^verbatim>\<open>RegExp\<close> do not throw, a run with a positive \<open>maxConcurrency\<close>
  returns its results and a summary, whatever the requests answer.
\<close>

lemma crawl_survives_page_failures:
  assumes mc: "0 < maxConcurrency opts"
    and h: "\<forall>name. \<forall>l \<in> set (listeners w name). \<forall>p. l p = None"
      "listeners w ''error'' \<noteq> []"
    and t: "\<forall>u. \<not> isl (urlParse w u)" "\<forall>pattern u. \<not> isl (regExpTest w pattern u)"
  shows "\<exists>out s'. crawl w opts startUrl s = Some (Inr out, s')"
proof -
  define I where "I = (\<lambda>(q :: item list) (t :: crawler). True)"
  define E where "E = (\<lambda>t :: crawler. False)"
  let ?q0 = "[\<lparr>item_url = startUrl, item_depth = 0, item_parent = None\<rparr>]"
  let ?s0 = "record_effect DateNow s"
  from crawl_loop_terminates [OF mc, of w ?q0 ?s0] obtain x s1 where
    l: "crawl_loop w opts ?q0 ?s0 = Some (x, s1)"
    by (metis surj_pair)
  have init: "I ?q0 ?s0"
    by (simp add: I_def)
  have step: "\<And>q t y t1. I q t \<Longrightarrow> 0 < length q \<Longrightarrow> int (length (results t)) < maxPages opts
      \<Longrightarrow> crawl_batch w opts q t = (y, t1) \<Longrightarrow> (case y of Inl e \<Rightarrow> E t1 | Inr q1 \<Rightarrow> I q1 t1)"
  proof -
    fix q t y t1
    assume b: "crawl_batch w opts q t = (y, t1)"
    from crawl_batch_no_raise [OF h t, of opts q t] b obtain q1 where "y = Inr q1"
      by (cases y) simp_all
    then show "case y of Inl e \<Rightarrow> E t1 | Inr q1 \<Rightarrow> I q1 t1"
      by (simp add: I_def)
  qed
  note R = crawl_loop_rule [where I = I and E = E, OF l init step]
  have x: "x = Inr ()"
  proof (cases x)
    case (Inl e)
    from R have "E s1"
      unfolding Inl by (simp only: sum.case)
    then show ?thesis
      by (simp add: E_def)
  next
    case (Inr u)
    then show ?thesis by simp
  qed
  let ?s2 = "record_effect DateNow s1"
  let ?summ = "summary_of ?s2 (dateNow w (length (trace s))) (dateNow w (length (trace s1)))"
  from emit_heard [OF h, of "''complete''" "Complete (results s1) ?summ" ?s2] obtain b where
    e: "emit w ''complete'' (Complete (results s1) ?summ) ?s2
      = (Inr b, record_effect (Emit ''complete'' (Complete (results s1) ?summ)) ?s2)"
    by blast
  have "crawl w opts startUrl s
      = Some (Inr \<lparr>out_results = results s1, out_summary = ?summ\<rparr>,
          record_effect (Emit ''complete'' (Complete (results s1) ?summ)) ?s2)"
    by (simp add: crawl_def Date_now_def l x crawl_finish_def Let_def e)
  then show ?thesis
    by blast
qed

text \<open>
  A rejected promise: the URL is added to \<open>failedUrls\<close> and the \<^verbatim>\<open>'error'\<close> event
  with the URL and the reason is emitted; it raises exactly when \<^verbatim>\<open>emit\<close> throws.
  No item is appended to the queue for a URL in \<open>failedUrls\<close>
  (\<open>on_fulfilled_effect\<close>), and \<open>failedUrls\<close> never loses a URL (\<open>crawl_extends\<close>).
\<close>

lemma on_rejected_records:
  assumes "on_rejected w reason it s = (x, s')"
  shows "item_url it \<in> failedUrls s'
    \<and> trace s' = trace s @ [Emit ''error'' (Page_error (item_url it) reason)]
    \<and> x = (case fst (emit w ''error'' (Page_error (item_url it) reason)
                  (s\<lparr>failedUrls := insert (item_url it) (failedUrls s)\<rparr>)) of
             Inl e \<Rightarrow> Inl e | Inr b \<Rightarrow> Inr ())"
  using assms on_rejected_effect [OF assms]
  by (auto simp: on_rejected_def Let_def split: sum.splits prod.splits)

subsection \<open>Two remarks\<close>

text \<open>With a negative \<open>maxRetries\<close> the loop of \<open>crawlPage\<close> makes no request at all.\<close>

lemma crawlPage_loop_negative:
  "maxRetries opts < 0 \<Longrightarrow> crawlPage_loop w opts u d p st 0 s = (Inr None, s)"
  by (subst crawlPage_loop.simps) simp

text \<open>The two sets stay finite, so that \<open>failedPages\<close> is the number of failed URLs.\<close>

lemma crawl_finite:
  assumes "crawl w opts startUrl s = Some (r, s')"
    and "finite (visitedUrls s)" and "finite (failedUrls s)"
  shows "finite (visitedUrls s') \<and> finite (failedUrls s')"
proof -
  let ?Q = "\<lambda>t :: crawler. finite (visitedUrls t) \<and> finite (failedUrls t)"
  have k: "kept_by_crawl ?Q"
    by (simp add: kept_by_crawl_def)
  have kp: "kept_by_calls w opts ?Q (\<lambda>it c t. True)"
  proof (rule kept_by_callsI)
    fix it c t c' t'
    assume q: "finite (visitedUrls t) \<and> finite (failedUrls t)"
      and c: "call_step w opts it c t = (c', t')"
    from call_step_frame [OF c] q
    show "(finite (visitedUrls t') \<and> finite (failedUrls t')) \<and> True"
      by auto
  qed simp_all
  from assms(2,3) have "?Q s"
    by simp
  from crawl_kept [OF k kp this assms(1)] show ?thesis .
qed

end
